theory Spec2Isabelle
  imports Main "HOL-Library.Word" "HOL-Library.Signed_Division"
begin

section \<open>The instruction model\<close>

text \<open>
  The passes of \<^verbatim>\<open>TestPass.cpp\<close> and of \<^verbatim>\<open>part_000\<close> work on LLVM functions: a function
  is a list of basic blocks, a block a list of instructions.  A value is an integer
  constant, an opaque external value (argument, global, address) or the result of an
  instruction, referred to by the identity of that instruction (the C++ code compares
  \<^verbatim>\<open>Value *\<close> pointers; constants are uniqued, so equal constants are the same value).
\<close>

datatype 'c val =
    ConstantInt 'c
  | Argument string
  | InstRef nat

datatype binop = Add | Sub | Mul | SDiv | UDiv | Shl | LShr | AShr

text \<open>
  Every instruction carries its identity first.  \<open>StoreInst i v p\<close> stores the value
  operand \<open>v\<close> through the pointer operand \<open>p\<close>; \<open>LoadInst i p\<close> loads through \<open>p\<close>;
  \<open>OtherInst\<close> stands for any instruction that is neither a binary operator nor a
  load or store (a call, a return, ...) and only uses its operands.
\<close>

datatype 'c instr =
    BinaryOperator nat binop "'c val" "'c val"
  | StoreInst nat "'c val" "'c val"
  | LoadInst nat "'c val"
  | OtherInst nat "'c val list"

type_synonym 'c block = "'c instr list"
type_synonym 'c func = "'c block list"

datatype opcode = BinOp binop | Store | Load | Other

fun ident :: "'c instr \<Rightarrow> nat" where
  "ident (BinaryOperator i _ _ _) = i"
| "ident (StoreInst i _ _) = i"
| "ident (LoadInst i _) = i"
| "ident (OtherInst i _) = i"

fun getOpcode :: "'c instr \<Rightarrow> opcode" where
  "getOpcode (BinaryOperator _ b _ _) = BinOp b"
| "getOpcode (StoreInst _ _ _) = Store"
| "getOpcode (LoadInst _ _) = Load"
| "getOpcode (OtherInst _ _) = Other"

fun operands :: "'c instr \<Rightarrow> 'c val list" where
  "operands (BinaryOperator _ _ a b) = [a, b]"
| "operands (StoreInst _ v p) = [v, p]"
| "operands (LoadInst _ p) = [p]"
| "operands (OtherInst _ vs) = vs"

text \<open>\<^verbatim>\<open>ConstantInt::isZero\<close>, \<^verbatim>\<open>isOne\<close> and \<^verbatim>\<open>equalsInt(n)\<close> on a value that may or may not
  be a \<^verbatim>\<open>ConstantInt\<close> (the \<^verbatim>\<open>dyn_cast\<close> is part of the test).\<close>

fun equalsInt :: "nat \<Rightarrow> 'a::len word val \<Rightarrow> bool" where
  "equalsInt n (ConstantInt c) = (unat c = n)"
| "equalsInt n _ = False"

fun isConstantInt :: "'c val \<Rightarrow> bool" where
  "isConstantInt (ConstantInt _) = True"
| "isConstantInt _ = False"

section \<open>Primitive mutations\<close>

text \<open>\<^verbatim>\<open>replaceAllUsesWith\<close> rewrites every operand slot that holds the old value, in
  every instruction it is applied to; \<open>use_empty i xs\<close> says that no instruction of
  \<open>xs\<close> has the result of instruction \<open>i\<close> as an operand.\<close>

definition subst_val :: "nat \<Rightarrow> 'c val \<Rightarrow> 'c val \<Rightarrow> 'c val" where
  "subst_val old new v = (if v = InstRef old then new else v)"

fun replaceUsesOfWith :: "nat \<Rightarrow> 'c val \<Rightarrow> 'c instr \<Rightarrow> 'c instr" where
  "replaceUsesOfWith old new (BinaryOperator i b x y) =
     BinaryOperator i b (subst_val old new x) (subst_val old new y)"
| "replaceUsesOfWith old new (StoreInst i v p) =
     StoreInst i (subst_val old new v) (subst_val old new p)"
| "replaceUsesOfWith old new (LoadInst i p) = LoadInst i (subst_val old new p)"
| "replaceUsesOfWith old new (OtherInst i vs) = OtherInst i (map (subst_val old new) vs)"

definition replaceAllUsesWith :: "nat \<Rightarrow> 'c val \<Rightarrow> 'c instr list \<Rightarrow> 'c instr list" where
  "replaceAllUsesWith old new xs = map (replaceUsesOfWith old new) xs"

definition use_empty :: "nat \<Rightarrow> 'c instr list \<Rightarrow> bool" where
  "use_empty i xs = list_all (\<lambda>I. InstRef i \<notin> set (operands I)) xs"

text \<open>New instructions get identities from a counter that starts above every identity
  of the function.\<close>

definition next_id :: "'c instr list \<Rightarrow> nat" where
  "next_id xs = Suc (foldr max (map ident xs) 0)"

section \<open>Evaluation of straight-line code\<close>

text \<open>
  The meaning of the opcodes on \<open>w\<close>-bit integers.  \<open>None\<close> is undefined behaviour
  (division by zero, overflowing signed division).  Shifts are the shifts of the word;
  a shift amount at or above the width, for which LLVM gives no defined result, is not
  set apart.
\<close>

definition word_sdiv :: "'a::len word \<Rightarrow> 'a word \<Rightarrow> 'a word" where
  "word_sdiv x y = word_of_int (sint x sdiv sint y)"

fun eval_binop :: "binop \<Rightarrow> 'a::len word \<Rightarrow> 'a word \<Rightarrow> 'a word option" where
  "eval_binop Add x y = Some (x + y)"
| "eval_binop Sub x y = Some (x - y)"
| "eval_binop Mul x y = Some (x * y)"
| "eval_binop SDiv x y =
     (if y = 0 \<or> (sint x = - (2 ^ (LENGTH('a) - 1)) \<and> sint y = - 1) then None
      else Some (word_sdiv x y))"
| "eval_binop UDiv x y = (if y = 0 then None else Some (x div y))"
| "eval_binop Shl x y = Some (push_bit (unat y) x)"
| "eval_binop LShr x y = Some (drop_bit (unat y) x)"
| "eval_binop AShr x y = Some (signed_drop_bit (unat y) x)"

type_synonym 'a regs = "nat \<rightharpoonup> 'a word"
type_synonym 'a memory = "'a word \<rightharpoonup> 'a word"

fun eval_val :: "(string \<Rightarrow> 'a word) \<Rightarrow> 'a regs \<Rightarrow> 'a::len word val \<Rightarrow> 'a word option" where
  "eval_val env rs (ConstantInt c) = Some c"
| "eval_val env rs (Argument a) = Some (env a)"
| "eval_val env rs (InstRef i) = rs i"

fun exec_instr ::
  "(string \<Rightarrow> 'a word) \<Rightarrow> 'a::len word instr \<Rightarrow> 'a regs \<times> 'a memory \<Rightarrow> ('a regs \<times> 'a memory) option" where
  "exec_instr env (BinaryOperator i b x y) (rs, m) =
     (case (eval_val env rs x, eval_val env rs y) of
        (Some a, Some c) \<Rightarrow>
          (case eval_binop b a c of Some z \<Rightarrow> Some (rs(i \<mapsto> z), m) | None \<Rightarrow> None)
      | _ \<Rightarrow> None)"
| "exec_instr env (StoreInst i v p) (rs, m) =
     (case (eval_val env rs v, eval_val env rs p) of
        (Some a, Some q) \<Rightarrow> Some (rs, m(q \<mapsto> a))
      | _ \<Rightarrow> None)"
| "exec_instr env (LoadInst i p) (rs, m) =
     (case eval_val env rs p of
        Some q \<Rightarrow> (case m q of Some a \<Rightarrow> Some (rs(i \<mapsto> a), m) | None \<Rightarrow> None)
      | None \<Rightarrow> None)"
| "exec_instr env (OtherInst i vs) (rs, m) = None"

fun exec_block ::
  "(string \<Rightarrow> 'a word) \<Rightarrow> 'a::len word instr list \<Rightarrow> 'a regs \<times> 'a memory \<Rightarrow> ('a regs \<times> 'a memory) option" where
  "exec_block env [] s = Some s"
| "exec_block env (I # rest) s =
     (case exec_instr env I s of None \<Rightarrow> None | Some s' \<Rightarrow> exec_block env rest s')"

text \<open>The value an instruction's result has after the block has run from empty
  registers and empty memory.\<close>

definition result_of :: "(string \<Rightarrow> 'a word) \<Rightarrow> 'a::len word instr list \<Rightarrow> nat \<Rightarrow> 'a word option" where
  "result_of env b i =
     (case exec_block env b (Map.empty, Map.empty) of None \<Rightarrow> None | Some (rs, m) \<Rightarrow> rs i)"

section \<open>The scan shared by the erasing passes\<close>

datatype error = UsesRemain | UseAfterErase

text \<open>
  The loops \<^verbatim>\<open>for (auto it = BB.begin(); it != BB.end();) { Instruction *I = &*it++; ... }\<close>
  of \<^verbatim>\<open>part_000\<close> and of the strength-reduction and multi-instruction passes of
  \<^verbatim>\<open>TestPass.cpp\<close> have one shape: the iterator is advanced before \<open>I\<close> is looked at, so
  the state is the blocks already scanned (\<open>ds\<close>), the part of the current block before
  the iterator (\<open>pre\<close>), the part from the iterator on (\<open>rest\<close>) and the blocks still to
  come (\<open>ts\<close>).  What a pass does at \<open>I\<close> is its rule: \<open>None\<close> leaves \<open>I\<close> alone,
  \<open>Some (news, v)\<close> inserts the instructions \<open>news\<close> before \<open>I\<close>, replaces all uses of \<open>I\<close>
  with \<open>v\<close> and erases \<open>I\<close>.  The rule sees the identity counter and all instructions of
  the function.  Erasing an instruction that still has uses is the error \<open>UsesRemain\<close>
  (LLVM's assertion in the destructor of \<^verbatim>\<open>Value\<close>).  The flag is \<^verbatim>\<open>changed\<close>.
\<close>

type_synonym 'c rule = "nat \<Rightarrow> 'c instr list \<Rightarrow> 'c instr \<Rightarrow> ('c instr list \<times> 'c val) option"

function scan ::
  "'c rule \<Rightarrow> nat \<Rightarrow> 'c block list \<Rightarrow> 'c instr list \<Rightarrow> 'c instr list \<Rightarrow> 'c block list \<Rightarrow> bool
   \<Rightarrow> error + ('c func \<times> bool)" where
  "scan r n ds pre [] [] ch = Inr (ds @ [pre], ch)"
| "scan r n ds pre [] (b # bs) ch = scan r n (ds @ [pre]) [] b bs ch"
| "scan r n ds pre (I # rest) ts ch =
     (case r n (concat ds @ pre @ I # rest @ concat ts) I of
        None \<Rightarrow> scan r n ds (pre @ [I]) rest ts ch
      | Some (news, v) \<Rightarrow>
          if use_empty (ident I)
               (replaceAllUsesWith (ident I) v (concat ds @ pre @ news @ I # rest @ concat ts))
          then scan r (n + length news)
                 (map (replaceAllUsesWith (ident I) v) ds)
                 (replaceAllUsesWith (ident I) v (pre @ news))
                 (replaceAllUsesWith (ident I) v rest)
                 (map (replaceAllUsesWith (ident I) v) ts) True
          else Inl UsesRemain)"
  by pat_completeness auto
termination
  by (relation "measures [\<lambda>(r, n, ds, pre, rest, ts, ch). length ts,
                          \<lambda>(r, n, ds, pre, rest, ts, ch). length rest]")
     (auto simp: replaceAllUsesWith_def)

definition run_scan :: "'c rule \<Rightarrow> 'c func \<Rightarrow> error + ('c func \<times> bool)" where
  "run_scan r F =
     (case F of [] \<Rightarrow> Inr ([], False)
      | b # bs \<Rightarrow> scan r (next_id (concat F)) [] [] b bs False)"

text \<open>The end of every \<^verbatim>\<open>run\<close> of \<^verbatim>\<open>TestPass.cpp\<close>:
  \<^verbatim>\<open>if (changed) return PreservedAnalyses::none(); return PreservedAnalyses::all();\<close>
  and of every \<^verbatim>\<open>run\<close> of \<^verbatim>\<open>part_000\<close>: \<^verbatim>\<open>return PreservedAnalyses::none();\<close>\<close>

datatype PreservedAnalyses = PA_none | PA_all

definition report_changed :: "error + ('c func \<times> bool) \<Rightarrow> error + ('c func \<times> PreservedAnalyses)" where
  "report_changed res =
     (case res of Inl e \<Rightarrow> Inl e
      | Inr (F, changed) \<Rightarrow> Inr (F, if changed then PA_none else PA_all))"

definition report_none :: "error + ('c func \<times> bool) \<Rightarrow> error + ('c func \<times> PreservedAnalyses)" where
  "report_none res =
     (case res of Inl e \<Rightarrow> Inl e | Inr (F, changed) \<Rightarrow> Inr (F, PA_none))"

section \<open>The algebraic-identity passes\<close>

text \<open>\<^verbatim>\<open>part_000\<close>: for an \<^verbatim>\<open>Add\<close>, operand 1 is tested for zero first, then operand 0; for
  a \<^verbatim>\<open>Mul\<close>, operand 1 is tested for one first, then operand 0.\<close>

fun identity_part000 :: "'a::len word instr \<Rightarrow> 'a word val option" where
  "identity_part000 (BinaryOperator _ Add x y) =
     (if y = ConstantInt 0 then Some x else if x = ConstantInt 0 then Some y else None)"
| "identity_part000 (BinaryOperator _ Mul x y) =
     (if y = ConstantInt 1 then Some x else if x = ConstantInt 1 then Some y else None)"
| "identity_part000 _ = None"

definition algebraic_rule_part000 :: "'a::len word rule" where
  "algebraic_rule_part000 n F I =
     (case identity_part000 I of None \<Rightarrow> None | Some x \<Rightarrow> Some ([], x))"

definition AlgebraicIdentityPass_part000 ::
  "'a::len word func \<Rightarrow> error + ('a word func \<times> PreservedAnalyses)" where
  "AlgebraicIdentityPass_part000 F = report_none (run_scan algebraic_rule_part000 F)"

text \<open>\<^verbatim>\<open>TestPass.cpp\<close>: the matchers \<^verbatim>\<open>m_Add(m_Value(X), m_ConstantInt<0>(..))\<close> and
  \<^verbatim>\<open>m_Mul(m_Value(X), m_ConstantInt<1>(..))\<close> are not commutative: the constant is looked
  for in operand 1 only.\<close>

fun identity_TestPass :: "'a::len word instr \<Rightarrow> 'a word val option" where
  "identity_TestPass (BinaryOperator _ Add x y) =
     (if y = ConstantInt 0 then Some x else None)"
| "identity_TestPass (BinaryOperator _ Mul x y) =
     (if y = ConstantInt 1 then Some x else None)"
| "identity_TestPass _ = None"

text \<open>
  The loop of this pass is the range-based \<^verbatim>\<open>for (auto &I : BB)\<close>: the iterator still
  points at \<open>I\<close> while the body runs and is advanced afterwards.  The \<^verbatim>\<open>break\<close> after
  \<^verbatim>\<open>eraseFromParent\<close> leaves the \<^verbatim>\<open>switch\<close>, not the loop, so after a rewrite the loop
  advances an iterator to an erased instruction: undefined behaviour, the error
  \<open>UseAfterErase\<close>.  Nothing changes the function before the first match, so the scan
  carries the function along unchanged.
\<close>

fun algebraic_block_TestPass :: "'a::len word instr list \<Rightarrow> 'a word instr list \<Rightarrow> error option" where
  "algebraic_block_TestPass F [] = None"
| "algebraic_block_TestPass F (I # rest) =
     (case identity_TestPass I of
        None \<Rightarrow> algebraic_block_TestPass F rest
      | Some x \<Rightarrow>
          if use_empty (ident I) (replaceAllUsesWith (ident I) x F)
          then Some UseAfterErase else Some UsesRemain)"

fun algebraic_blocks_TestPass :: "'a::len word instr list \<Rightarrow> 'a word func \<Rightarrow> error option" where
  "algebraic_blocks_TestPass F [] = None"
| "algebraic_blocks_TestPass F (b # bs) =
     (case algebraic_block_TestPass F b of
        None \<Rightarrow> algebraic_blocks_TestPass F bs
      | Some e \<Rightarrow> Some e)"

definition AlgebraicIdentityPass_TestPass ::
  "'a::len word func \<Rightarrow> error + ('a word func \<times> PreservedAnalyses)" where
  "AlgebraicIdentityPass_TestPass F =
     (case algebraic_blocks_TestPass (concat F) F of
        None \<Rightarrow> Inr (F, PA_all)
      | Some e \<Rightarrow> Inl e)"

section \<open>The strength-reduction passes\<close>

text \<open>\<^verbatim>\<open>part_000\<close>: \<^verbatim>\<open>BinaryOperator::CreateShl(.., binOp)\<close> always makes an instruction
  and inserts it before \<^verbatim>\<open>binOp\<close>.  Only \<^verbatim>\<open>SDiv\<close> is handled among the divisions.\<close>

fun strength_rule_part000 :: "'a::len word rule" where
  "strength_rule_part000 n F (BinaryOperator i Mul a b) =
     (let op0 = (if equalsInt 15 a then b else a);
          op1 = (if equalsInt 15 a then a else b)
      in if equalsInt 15 op1
         then Some ([BinaryOperator n Shl op0 (ConstantInt 4),
                     BinaryOperator (Suc n) Sub (InstRef n) op0], InstRef (Suc n))
         else None)"
| "strength_rule_part000 n F (BinaryOperator i SDiv a b) =
     (if equalsInt 8 b
      then Some ([BinaryOperator n AShr a (ConstantInt 3)], InstRef n)
      else None)"
| "strength_rule_part000 n F _ = None"

definition StrengthReductionPass_part000 ::
  "'a::len word func \<Rightarrow> error + ('a word func \<times> PreservedAnalyses)" where
  "StrengthReductionPass_part000 F = report_none (run_scan strength_rule_part000 F)"

text \<open>\<^verbatim>\<open>TestPass.cpp\<close> builds with \<^verbatim>\<open>IRBuilder<>\<close>, whose constant folder returns a
  constant, and inserts nothing, when both operands are constants.  The matcher
  \<^verbatim>\<open>m_Mul(m_Value(X), m_ConstantInt(C))\<close> wants the constant in operand 1.  Both
  divisions become \<^verbatim>\<open>LShr\<close>.\<close>

fun IRBuilder_Create ::
  "nat \<Rightarrow> binop \<Rightarrow> 'a::len word val \<Rightarrow> 'a word val \<Rightarrow> 'a word instr list \<times> 'a word val" where
  "IRBuilder_Create n b (ConstantInt x) (ConstantInt y) =
     (case eval_binop b x y of
        Some z \<Rightarrow> ([], ConstantInt z)
      | None \<Rightarrow> ([BinaryOperator n b (ConstantInt x) (ConstantInt y)], InstRef n))"
| "IRBuilder_Create n b x y = ([BinaryOperator n b x y], InstRef n)"

fun strength_rule_TestPass :: "'a::len word rule" where
  "strength_rule_TestPass n F (BinaryOperator i Mul x c) =
     (if equalsInt 15 c
      then (case IRBuilder_Create n Shl x (ConstantInt 4) of
              (news1, shifted) \<Rightarrow>
                (case IRBuilder_Create (n + length news1) Sub shifted x of
                   (news2, newval) \<Rightarrow> Some (news1 @ news2, newval)))
      else None)"
| "strength_rule_TestPass n F (BinaryOperator i SDiv x c) =
     (if equalsInt 8 c then Some (IRBuilder_Create n LShr x (ConstantInt 3)) else None)"
| "strength_rule_TestPass n F (BinaryOperator i UDiv x c) =
     (if equalsInt 8 c then Some (IRBuilder_Create n LShr x (ConstantInt 3)) else None)"
| "strength_rule_TestPass n F _ = None"

definition StrengthReductionPass_TestPass ::
  "'a::len word func \<Rightarrow> error + ('a word func \<times> PreservedAnalyses)" where
  "StrengthReductionPass_TestPass F = report_changed (run_scan strength_rule_TestPass F)"

section \<open>The multi-instruction pass of TestPass.cpp\<close>

text \<open>\<^verbatim>\<open>MultiInstructionOptPass::run\<close> starts from the \<^verbatim>\<open>Sub\<close>: \<^verbatim>\<open>sub A, 1\<close> where \<open>A\<close> is, by
  \<^verbatim>\<open>dyn_cast<BinaryOperator>(A)\<close>, an instruction \<^verbatim>\<open>add B, 1\<close> found anywhere in the
  function.  The uses of the \<^verbatim>\<open>Sub\<close> are replaced with \<open>B\<close> and the \<^verbatim>\<open>Sub\<close> is erased.\<close>

fun defining_add :: "'a::len word instr list \<Rightarrow> 'a word val \<Rightarrow> 'a word val option" where
  "defining_add F (InstRef j) =
     (case find (\<lambda>J. ident J = j) F of
        Some (BinaryOperator _ Add b c2) \<Rightarrow> (if equalsInt 1 c2 then Some b else None)
      | _ \<Rightarrow> None)"
| "defining_add F _ = None"

fun multi_rule_TestPass :: "'a::len word rule" where
  "multi_rule_TestPass n F (BinaryOperator i Sub a c1) =
     (if equalsInt 1 c1
      then (case defining_add F a of None \<Rightarrow> None | Some b \<Rightarrow> Some ([], b))
      else None)"
| "multi_rule_TestPass n F _ = None"

definition MultiInstructionOptPass ::
  "'a::len word func \<Rightarrow> error + ('a word func \<times> PreservedAnalyses)" where
  "MultiInstructionOptPass F = report_changed (run_scan multi_rule_TestPass F)"

section \<open>The multi-instruction pass of part\_000\<close>

text \<open>
  \<^verbatim>\<open>MultiInstructionOptimizationPass::run\<close>: the instruction \<open>I\<close> has just been passed by
  the iterator, \<open>rest\<close> is what follows it in the block.  The operand \<open>b\<close> of the add is
  chosen as the source does: the \<^verbatim>\<open>else if\<close> on operand 0 is tried only when operand 1 is
  not a \<^verbatim>\<open>ConstantInt\<close>.
\<close>

fun add_one_operand :: "'a::len word instr \<Rightarrow> 'a word val option" where
  "add_one_operand (BinaryOperator _ Add x (ConstantInt c)) =
     (if unat c = 1 then Some x else None)"
| "add_one_operand (BinaryOperator _ Add (ConstantInt c) y) =
     (if unat c = 1 then Some y else None)"
| "add_one_operand _ = None"

fun look_ahead :: "'a::len word instr \<Rightarrow> 'a word instr list \<Rightarrow> 'a word instr list" where
  "look_ahead I (StoreInst s v p # LoadInst l q # BinaryOperator c Sub t k # rest) =
     (case add_one_operand I of
        None \<Rightarrow> StoreInst s v p # LoadInst l q # BinaryOperator c Sub t k # rest
      | Some b \<Rightarrow>
          if v = InstRef (ident I) \<and> q = p \<and> t = InstRef l \<and> equalsInt 1 k
          then StoreInst s v p # LoadInst l q # BinaryOperator c Sub b k # rest
          else StoreInst s v p # LoadInst l q # BinaryOperator c Sub t k # rest)"
| "look_ahead I rest = rest"

lemma length_look_ahead [simp]: "length (look_ahead I rest) = length rest"
  by (induction I rest rule: look_ahead.induct) (auto split: option.splits)

function multi_scan :: "'a::len word instr list \<Rightarrow> 'a word instr list" where
  "multi_scan [] = []"
| "multi_scan (I # rest) = I # multi_scan (look_ahead I rest)"
  by pat_completeness auto
termination
  by (relation "measure length") auto

definition MultiInstructionOptimizationPass ::
  "'a::len word func \<Rightarrow> 'a word func \<times> PreservedAnalyses" where
  "MultiInstructionOptimizationPass F = (map multi_scan F, PA_none)"

text \<open>What the pass may do to an instruction: nothing, or give a \<open>Sub\<close> another first
  operand.\<close>

definition operand0_of_sub_only :: "'c instr \<Rightarrow> 'c instr \<Rightarrow> bool" where
  "operand0_of_sub_only J J' \<longleftrightarrow>
     J' = J \<or> (\<exists>c t k b. J = BinaryOperator c Sub t k \<and> J' = BinaryOperator c Sub b k)"

section \<open>Well-formed functions\<close>

text \<open>
  \<open>ids\<close> are the identities of a list of instructions, \<open>refs\<close> the identities an
  instruction's operands refer to.  A function is well formed when, in the order of its
  instructions (block after block), every instruction has an identity not used before
  and refers only to instructions before it: the straight-line form of SSA the passes
  are written for.
\<close>

definition ids :: "'c instr list \<Rightarrow> nat set" where
  "ids xs = set (map ident xs)"

fun refs_val :: "'c val \<Rightarrow> nat set" where
  "refs_val (InstRef j) = {j}"
| "refs_val _ = {}"

definition refs :: "'c instr \<Rightarrow> nat set" where
  "refs I = \<Union> (set (map refs_val (operands I)))"

fun defs_before_uses :: "nat set \<Rightarrow> 'c instr list \<Rightarrow> bool" where
  "defs_before_uses S [] = True"
| "defs_before_uses S (I # xs) =
     (refs I \<subseteq> S \<and> ident I \<notin> S \<and> defs_before_uses (insert (ident I) S) xs)"

definition well_formed :: "'c func \<Rightarrow> bool" where
  "well_formed F = defs_before_uses {} (concat F)"

text \<open>\<open>in_order n L\<close>: the instructions are well formed and the identity counter \<open>n\<close> is
  above all of them.  A rule is \<open>sound\<close> when what it inserts takes its identities
  from the counter and refers, like the replacement value, only to what stands before
  the rewritten instruction.\<close>

definition in_order :: "nat \<Rightarrow> 'c instr list \<Rightarrow> bool" where
  "in_order n L \<longleftrightarrow> defs_before_uses {} L \<and> (\<forall>i\<in>ids L. i < n)"

definition sound :: "'c rule \<Rightarrow> bool" where
  "sound r \<longleftrightarrow>
     (\<forall>n xs I ys news v.
        in_order n (xs @ I # ys) \<longrightarrow> r n (xs @ I # ys) I = Some (news, v) \<longrightarrow>
          map ident news = [n..<n + length news]
          \<and> defs_before_uses (ids xs) news
          \<and> refs_val v \<subseteq> ids xs \<union> ids news)"

text \<open>\<open>count_ops T L\<close> counts the instructions whose opcode satisfies \<open>T\<close>.  \<open>quiet r xs zs\<close>:
  the rule \<open>r\<close> matches none of \<open>zs\<close>, each seen behind \<open>xs\<close> and what precedes it in \<open>zs\<close>,
  whatever follows.  A rule \<open>settles\<close> when a well-formed instruction it does not match
  stays unmatched however the instructions after it change.\<close>

definition count_ops :: "(opcode \<Rightarrow> bool) \<Rightarrow> 'c instr list \<Rightarrow> nat" where
  "count_ops T L = length (filter (\<lambda>I. T (getOpcode I)) L)"

fun quiet :: "'c rule \<Rightarrow> 'c instr list \<Rightarrow> 'c instr list \<Rightarrow> bool" where
  "quiet r xs [] = True"
| "quiet r xs (J # zs) = ((\<forall>n ws. r n (xs @ J # ws) J = None) \<and> quiet r (xs @ [J]) zs)"

definition settles :: "'c rule \<Rightarrow> bool" where
  "settles r \<longleftrightarrow>
     (\<forall>n n' xs J ys zs. defs_before_uses {} (xs @ [J]) \<longrightarrow>
        r n (xs @ J # ys) J = None \<longrightarrow> r n' (xs @ J # zs) J = None)"

text \<open>The instructions the strength-reduction rules match.\<close>

definition reducible_part000 :: "'a::len word instr \<Rightarrow> bool" where
  "reducible_part000 J \<longleftrightarrow>
     (case J of
        BinaryOperator i Mul a b \<Rightarrow> equalsInt 15 a \<or> equalsInt 15 b
      | BinaryOperator i SDiv a b \<Rightarrow> equalsInt 8 b
      | _ \<Rightarrow> False)"

definition reducible_TestPass :: "'a::len word instr \<Rightarrow> bool" where
  "reducible_TestPass J \<longleftrightarrow>
     (case J of
        BinaryOperator i Mul a b \<Rightarrow> equalsInt 15 b
      | BinaryOperator i SDiv a b \<Rightarrow> equalsInt 8 b
      | BinaryOperator i UDiv a b \<Rightarrow> equalsInt 8 b
      | _ \<Rightarrow> False)"

section \<open>Lemmas on substitution and order\<close>

lemma ids_simps [simp]:
  "ids [] = {}" "ids (I # xs) = insert (ident I) (ids xs)" "ids (xs @ ys) = ids xs \<union> ids ys"
  by (auto simp: ids_def)

lemma ids_mem: "I \<in> set xs \<Longrightarrow> ident I \<in> ids xs"
  by (simp add: ids_def)

lemma ident_replaceUsesOfWith [simp]: "ident (replaceUsesOfWith old new I) = ident I"
  by (cases I) auto

lemma getOpcode_replaceUsesOfWith [simp]: "getOpcode (replaceUsesOfWith old new I) = getOpcode I"
  by (cases I) auto

lemma ids_replaceAllUsesWith [simp]: "ids (replaceAllUsesWith old new xs) = ids xs"
  by (simp add: ids_def replaceAllUsesWith_def comp_def)

lemma ids_map_replace [simp]: "ids (map (replaceUsesOfWith old new) xs) = ids xs"
  by (simp add: ids_def comp_def)

lemma subst_val_same: "old \<notin> refs_val v \<Longrightarrow> subst_val old new v = v"
  by (cases v) (auto simp: subst_val_def)

lemma replaceUsesOfWith_same: "old \<notin> refs I \<Longrightarrow> replaceUsesOfWith old new I = I"
  by (cases I) (auto simp: refs_def subst_val_same map_idI)

lemma refs_val_subst: "refs_val (subst_val old new v) \<subseteq> (refs_val v - {old}) \<union> refs_val new"
  by (cases v) (auto simp: subst_val_def)

lemma refs_replaceUsesOfWith:
  "refs (replaceUsesOfWith old new I) \<subseteq> (refs I - {old}) \<union> refs_val new"
proof (cases I)
  case (OtherInst i vs)
  have "\<And>v. refs_val (subst_val old new v) \<subseteq> (refs_val v - {old}) \<union> refs_val new"
    by (rule refs_val_subst)
  then show ?thesis unfolding OtherInst by (fastforce simp: refs_def)
next
  case (BinaryOperator i b x y)
  show ?thesis unfolding BinaryOperator
    using refs_val_subst [of old new x] refs_val_subst [of old new y]
    by (auto simp: refs_def)
next
  case (StoreInst i x y)
  show ?thesis unfolding StoreInst
    using refs_val_subst [of old new x] refs_val_subst [of old new y]
    by (auto simp: refs_def)
next
  case (LoadInst i x)
  show ?thesis unfolding LoadInst
    using refs_val_subst [of old new x]
    by (auto simp: refs_def)
qed

lemma defs_before_uses_append:
  "defs_before_uses S (xs @ ys) = (defs_before_uses S xs \<and> defs_before_uses (S \<union> ids xs) ys)"
  by (induction xs arbitrary: S) (auto simp: Un_commute insert_commute)

lemma defs_before_uses_ids: "defs_before_uses S xs \<Longrightarrow> ids xs \<inter> S = {}"
  by (induction xs arbitrary: S) auto

lemma defs_before_uses_refs: "defs_before_uses S xs \<Longrightarrow> I \<in> set xs \<Longrightarrow> refs I \<subseteq> S \<union> ids xs"
proof (induction xs arbitrary: S)
  case Nil
  then show ?case by simp
next
  case (Cons J xs)
  show ?case
  proof (cases "I = J")
    case True
    with Cons.prems show ?thesis by auto
  next
    case False
    with Cons.prems have "I \<in> set xs" "defs_before_uses (insert (ident J) S) xs" by auto
    from Cons.IH [OF this(2) this(1)] show ?thesis by auto
  qed
qed

lemma defs_before_uses_mono:
  "defs_before_uses S xs \<Longrightarrow> S \<subseteq> S' \<Longrightarrow> ids xs \<inter> S' = {} \<Longrightarrow> defs_before_uses S' xs"
proof (induction xs arbitrary: S S')
  case Nil
  show ?case by simp
next
  case (Cons I xs)
  from Cons.prems have a: "refs I \<subseteq> S'" "ident I \<notin> S'" by auto
  from Cons.prems have d: "defs_before_uses (insert (ident I) S) xs" by simp
  from defs_before_uses_ids [OF d] have "ident I \<notin> ids xs" by auto
  with Cons.prems have "ids xs \<inter> insert (ident I) S' = {}" by auto
  moreover from Cons.prems have "insert (ident I) S \<subseteq> insert (ident I) S'" by auto
  ultimately have "defs_before_uses (insert (ident I) S') xs"
    using Cons.IH [OF d] by blast
  with a show ?case by simp
qed

lemma defs_before_uses_replace:
  "defs_before_uses (insert old T) ys \<Longrightarrow> refs_val new \<subseteq> T
   \<Longrightarrow> defs_before_uses T (map (replaceUsesOfWith old new) ys)"
proof (induction ys arbitrary: T)
  case Nil
  show ?case by simp
next
  case (Cons I ys)
  from Cons.prems have r: "refs I \<subseteq> insert old T" and i: "ident I \<notin> T"
    and d: "defs_before_uses (insert old (insert (ident I) T)) ys"
    by (auto simp: insert_commute)
  have "refs (replaceUsesOfWith old new I) \<subseteq> T"
    using refs_replaceUsesOfWith [of old new I] r Cons.prems(2) by auto
  moreover have "defs_before_uses (insert (ident I) T) (map (replaceUsesOfWith old new) ys)"
    using Cons.IH [OF d] Cons.prems(2) by auto
  ultimately show ?case using i by simp
qed

lemma subst_val_not_old: "new \<noteq> InstRef old \<Longrightarrow> subst_val old new v \<noteq> InstRef old"
  by (simp add: subst_val_def)

lemma operands_replaceUsesOfWith:
  "new \<noteq> InstRef old \<Longrightarrow> InstRef old \<notin> set (operands (replaceUsesOfWith old new I))"
  by (cases I) (auto simp: subst_val_def)

lemma use_empty_replace:
  "new \<noteq> InstRef old \<Longrightarrow> use_empty old (map (replaceUsesOfWith old new) zs)"
  by (simp add: use_empty_def list_all_iff operands_replaceUsesOfWith)

lemma use_empty_iff: "use_empty i xs \<longleftrightarrow> (\<forall>I\<in>set xs. i \<notin> refs I)"
proof -
  have "InstRef i \<in> set vs \<longleftrightarrow> i \<in> \<Union> (set (map refs_val vs))" for vs :: "'a val list"
  proof (induction vs)
    case Nil show ?case by simp
  next
    case (Cons v vs) then show ?case by (cases v) auto
  qed
  then show ?thesis by (simp add: use_empty_def list_all_iff refs_def)
qed

section \<open>Invariants of the scan\<close>

lemma scan_rule:
  assumes "Inv n ds pre rest ts ch"
    and "\<And>n ds pre b bs ch. Inv n ds pre [] (b # bs) ch \<Longrightarrow> Inv n (ds @ [pre]) [] b bs ch"
    and "\<And>n ds pre I rest ts ch.
           Inv n ds pre (I # rest) ts ch \<Longrightarrow>
           r n (concat ds @ pre @ I # rest @ concat ts) I = None \<Longrightarrow>
           Inv n ds (pre @ [I]) rest ts ch"
    and "\<And>n ds pre I rest ts ch news v.
           Inv n ds pre (I # rest) ts ch \<Longrightarrow>
           r n (concat ds @ pre @ I # rest @ concat ts) I = Some (news, v) \<Longrightarrow>
           use_empty (ident I)
             (replaceAllUsesWith (ident I) v (concat ds @ pre @ news @ I # rest @ concat ts))
           \<and> Inv (n + length news)
               (map (replaceAllUsesWith (ident I) v) ds)
               (replaceAllUsesWith (ident I) v (pre @ news))
               (replaceAllUsesWith (ident I) v rest)
               (map (replaceAllUsesWith (ident I) v) ts) True"
  shows "\<exists>n' ds' pre' ch'. scan r n ds pre rest ts ch = Inr (ds' @ [pre'], ch')
           \<and> Inv n' ds' pre' [] [] ch'"
  using assms
proof (induction r n ds pre rest ts ch rule: scan.induct)
  case (1 r n ds pre ch)
  then show ?case by auto
next
  case (2 r n ds pre b bs ch)
  have "Inv n (ds @ [pre]) [] b bs ch" using "2.prems"(1,2) by blast
  from "2.IH" [OF this "2.prems"(2,3,4)] show ?case by simp
next
  case (3 r n ds pre I rest ts ch)
  show ?case
  proof (cases "r n (concat ds @ pre @ I # rest @ concat ts) I")
    case None
    have "Inv n ds (pre @ [I]) rest ts ch" using "3.prems"(1,3) None by blast
    from "3.IH"(1) [OF None this "3.prems"(2,3,4)] show ?thesis using None by simp
  next
    case (Some p)
    obtain news v where p: "p = (news, v)" by (cases p)
    have s: "r n (concat ds @ pre @ I # rest @ concat ts) I = Some (news, v)"
      using Some p by simp
    from "3.prems"(4) [OF "3.prems"(1) s]
    have u: "use_empty (ident I)
             (replaceAllUsesWith (ident I) v (concat ds @ pre @ news @ I # rest @ concat ts))"
      and i: "Inv (n + length news)
               (map (replaceAllUsesWith (ident I) v) ds)
               (replaceAllUsesWith (ident I) v (pre @ news))
               (replaceAllUsesWith (ident I) v rest)
               (map (replaceAllUsesWith (ident I) v) ts) True"
      by blast+
    from "3.IH"(2) [OF Some p [symmetric] u i "3.prems"(2,3,4)] show ?thesis
      using s u by simp
  qed
qed

lemma rewrite_in_order:
  assumes "sound r" and "in_order n (xs @ I # ys)" and "r n (xs @ I # ys) I = Some (news, v)"
  shows "map (replaceUsesOfWith (ident I) v) xs = xs"
    and "map (replaceUsesOfWith (ident I) v) news = news"
    and "v \<noteq> InstRef (ident I)"
    and "in_order (n + length news) (xs @ news @ map (replaceUsesOfWith (ident I) v) ys)"
proof -
  from assms(2) have dx: "defs_before_uses {} xs" and rI: "refs I \<subseteq> ids xs"
    and iI: "ident I \<notin> ids xs" and dy: "defs_before_uses (insert (ident I) (ids xs)) ys"
    and lt: "\<forall>i\<in>ids (xs @ I # ys). i < n"
    by (auto simp: in_order_def defs_before_uses_append)
  from assms have mi: "map ident news = [n..<n + length news]"
    and dn: "defs_before_uses (ids xs) news" and rv: "refs_val v \<subseteq> ids xs \<union> ids news"
    unfolding sound_def by blast+
  have idn: "ids news = {n..<n + length news}"
    using mi by (simp add: ids_def)
  from lt have In: "ident I < n" by simp
  then have iIn: "ident I \<notin> ids news" using idn by simp
  show x: "map (replaceUsesOfWith (ident I) v) xs = xs"
  proof (rule map_idI)
    fix J assume "J \<in> set xs"
    from defs_before_uses_refs [OF dx this] iI have "ident I \<notin> refs J" by auto
    then show "replaceUsesOfWith (ident I) v J = J" by (rule replaceUsesOfWith_same)
  qed
  show nw: "map (replaceUsesOfWith (ident I) v) news = news"
  proof (rule map_idI)
    fix J assume "J \<in> set news"
    from defs_before_uses_refs [OF dn this] iI iIn have "ident I \<notin> refs J" by auto
    then show "replaceUsesOfWith (ident I) v J = J" by (rule replaceUsesOfWith_same)
  qed
  show "v \<noteq> InstRef (ident I)" using rv iI iIn by auto
  have "ids ys \<inter> insert (ident I) (ids xs \<union> ids news) = {}"
  proof -
    from defs_before_uses_ids [OF dy] have "ids ys \<inter> insert (ident I) (ids xs) = {}" .
    moreover have "i < n" if "i \<in> ids ys" for i using lt that by simp
    then have "ids ys \<inter> ids news = {}" unfolding idn by fastforce
    ultimately show ?thesis by blast
  qed
  with dy have "defs_before_uses (insert (ident I) (ids xs \<union> ids news)) ys"
    by (rule_tac defs_before_uses_mono [where S = "insert (ident I) (ids xs)"]) auto
  from defs_before_uses_replace [OF this rv]
  have "defs_before_uses (ids xs \<union> ids news) (map (replaceUsesOfWith (ident I) v) ys)" .
  with dx dn have "defs_before_uses {} (xs @ news @ map (replaceUsesOfWith (ident I) v) ys)"
    by (simp add: defs_before_uses_append Un_commute)
  moreover have "\<forall>i\<in>ids (xs @ news @ map (replaceUsesOfWith (ident I) v) ys). i < n + length news"
  proof
    fix i assume "i \<in> ids (xs @ news @ map (replaceUsesOfWith (ident I) v) ys)"
    then consider "i \<in> ids xs" | "i \<in> ids news" | "i \<in> ids ys" by auto
    then show "i < n + length news"
    proof cases
      case 1 with lt have "i < n" by simp then show ?thesis by simp
    next
      case 2 then show ?thesis unfolding idn by simp
    next
      case 3 with lt have "i < n" by simp then show ?thesis by simp
    qed
  qed
  ultimately show "in_order (n + length news) (xs @ news @ map (replaceUsesOfWith (ident I) v) ys)"
    by (simp add: in_order_def)
qed

lemma concat_map_replaceAllUsesWith:
  "concat (map (replaceAllUsesWith old new) bs) = map (replaceUsesOfWith old new) (concat bs)"
proof -
  have "replaceAllUsesWith old new = map (replaceUsesOfWith old new)"
    by (rule ext) (simp add: replaceAllUsesWith_def)
  then show ?thesis by (simp add: map_concat)
qed

text \<open>The rule for invariants of the scan over well-ordered functions, on the
  flattened state: \<open>xs\<close> is everything before the iterator, \<open>ys\<close> everything from it on.\<close>

lemma scan_ordered:
  assumes snd: "sound r"
    and ord: "in_order n (concat ds @ pre @ rest @ concat ts)"
    and inv: "Inv n (concat ds @ pre) (rest @ concat ts) ch"
    and keep: "\<And>n xs I ys ch.
           Inv n xs (I # ys) ch \<Longrightarrow> in_order n (xs @ I # ys) \<Longrightarrow>
           r n (xs @ I # ys) I = None \<Longrightarrow> Inv n (xs @ [I]) ys ch"
    and rewr: "\<And>n xs I ys ch news v.
           Inv n xs (I # ys) ch \<Longrightarrow> in_order n (xs @ I # ys) \<Longrightarrow>
           r n (xs @ I # ys) I = Some (news, v) \<Longrightarrow>
           Inv (n + length news) (xs @ news) (map (replaceUsesOfWith (ident I) v) ys) True"
  shows "\<exists>n' F' ch'. scan r n ds pre rest ts ch = Inr (F', ch')
           \<and> in_order n' (concat F') \<and> Inv n' (concat F') [] ch'"
proof -
  let ?Inv = "\<lambda>n ds pre rest ts ch.
      in_order n (concat ds @ pre @ rest @ concat ts)
      \<and> Inv n (concat ds @ pre) (rest @ concat ts) ch"
  have "\<exists>n' ds' pre' ch'. scan r n ds pre rest ts ch = Inr (ds' @ [pre'], ch')
           \<and> ?Inv n' ds' pre' [] [] ch'"
  proof (rule scan_rule [where Inv = ?Inv])
    show "?Inv n ds pre rest ts ch" using ord inv by simp
  next
    fix n ds pre b bs ch
    assume "?Inv n ds pre [] (b # bs) ch"
    then show "?Inv n (ds @ [pre]) [] b bs ch" by simp
  next
    fix n ds pre I rest ts ch
    assume i: "?Inv n ds pre (I # rest) ts ch"
      and s: "r n (concat ds @ pre @ I # rest @ concat ts) I = None"
    from i have a: "Inv n (concat ds @ pre) (I # rest @ concat ts) ch"
      and b: "in_order n ((concat ds @ pre) @ I # rest @ concat ts)" by simp_all
    from s have c: "r n ((concat ds @ pre) @ I # rest @ concat ts) I = None" by simp
    have "Inv n ((concat ds @ pre) @ [I]) (rest @ concat ts) ch" by (rule keep [OF a b c])
    with i show "?Inv n ds (pre @ [I]) rest ts ch" by simp
  next
    fix n ds pre I rest ts ch news v
    assume i: "?Inv n ds pre (I # rest) ts ch"
      and s: "r n (concat ds @ pre @ I # rest @ concat ts) I = Some (news, v)"
    let ?xs = "concat ds @ pre" and ?ys = "rest @ concat ts"
    let ?s = "replaceUsesOfWith (ident I) v"
    from i have i': "in_order n (?xs @ I # ?ys)" and j: "Inv n ?xs (I # ?ys) ch" by simp_all
    from s have s': "r n (?xs @ I # ?ys) I = Some (news, v)" by simp
    note rw = rewrite_in_order [OF snd i' s']
    have before: "concat (map (replaceAllUsesWith (ident I) v) ds)
        @ replaceAllUsesWith (ident I) v (pre @ news) = ?xs @ news"
      using rw(1) rw(2) by (simp add: concat_map_replaceAllUsesWith replaceAllUsesWith_def)
    have after: "replaceAllUsesWith (ident I) v rest
        @ concat (map (replaceAllUsesWith (ident I) v) ts) = map ?s ?ys"
      by (simp add: concat_map_replaceAllUsesWith replaceAllUsesWith_def)
    have u: "use_empty (ident I)
             (replaceAllUsesWith (ident I) v (concat ds @ pre @ news @ I # rest @ concat ts))"
      unfolding replaceAllUsesWith_def by (rule use_empty_replace [OF rw(3)])
    have "Inv (n + length news) (?xs @ news) (map ?s ?ys) True"
      using j i' s' by (rule rewr)
    then have a: "Inv (n + length news)
        (concat (map (replaceAllUsesWith (ident I) v) ds) @ replaceAllUsesWith (ident I) v (pre @ news))
        (replaceAllUsesWith (ident I) v rest @ concat (map (replaceAllUsesWith (ident I) v) ts)) True"
      by (simp only: before after)
    have "in_order (n + length news) ((?xs @ news) @ map ?s ?ys)" using rw(4) by simp
    then have b: "in_order (n + length news)
        ((concat (map (replaceAllUsesWith (ident I) v) ds) @ replaceAllUsesWith (ident I) v (pre @ news))
        @ (replaceAllUsesWith (ident I) v rest @ concat (map (replaceAllUsesWith (ident I) v) ts)))"
      by (simp only: before after)
    from a b u show "use_empty (ident I)
             (replaceAllUsesWith (ident I) v (concat ds @ pre @ news @ I # rest @ concat ts))
           \<and> ?Inv (n + length news)
               (map (replaceAllUsesWith (ident I) v) ds)
               (replaceAllUsesWith (ident I) v (pre @ news))
               (replaceAllUsesWith (ident I) v rest)
               (map (replaceAllUsesWith (ident I) v) ts) True"
      by simp
  qed
  then obtain n' ds' pre' ch' where "scan r n ds pre rest ts ch = Inr (ds' @ [pre'], ch')"
    and "in_order n' (concat (ds' @ [pre']))" and "Inv n' (concat (ds' @ [pre'])) [] ch'"
    by auto
  then show ?thesis by blast
qed


lemma foldr_max_ge: "i \<in> set ns \<Longrightarrow> i \<le> foldr max ns (0::nat)"
  by (induction ns) auto

lemma next_id_greater: "i \<in> ids L \<Longrightarrow> i < next_id L"
  unfolding next_id_def ids_def using foldr_max_ge [of i "map ident L"] by simp

lemma well_formed_in_order: "well_formed F \<Longrightarrow> in_order (next_id (concat F)) (concat F)"
  by (simp add: well_formed_def in_order_def next_id_greater)

lemma in_order_parts:
  assumes "in_order n (xs @ I # ys)"
  shows "refs I \<subseteq> ids xs" and "\<forall>i\<in>ids xs. i < n" and "ident I \<notin> ids xs"
    and "defs_before_uses {} xs"
  using assms by (auto simp: in_order_def defs_before_uses_append)

lemma refs_BinaryOperator [simp]: "refs (BinaryOperator i b x y) = refs_val x \<union> refs_val y"
  by (simp add: refs_def)

lemma refs_StoreInst [simp]: "refs (StoreInst i x y) = refs_val x \<union> refs_val y"
  by (simp add: refs_def)

lemma refs_LoadInst [simp]: "refs (LoadInst i x) = refs_val x"
  by (simp add: refs_def)

lemma identity_part000_refs: "identity_part000 I = Some x \<Longrightarrow> refs_val x \<subseteq> refs I"
  by (induction I rule: identity_part000.induct) (auto split: if_splits)


lemma sound_algebraic_rule_part000: "sound algebraic_rule_part000"
  unfolding sound_def
proof (intro allI impI)
  fix n xs and I :: "'a word instr" and ys news v
  assume o: "in_order n (xs @ I # ys)"
    and r: "algebraic_rule_part000 n (xs @ I # ys) I = Some (news, v)"
  from r have n: "news = []" and i: "identity_part000 I = Some v"
    by (auto simp: algebraic_rule_part000_def split: option.splits)
  from identity_part000_refs [OF i] in_order_parts(1) [OF o] have "refs_val v \<subseteq> ids xs" by blast
  with n show "map ident news = [n..<n + length news] \<and> defs_before_uses (ids xs) news
      \<and> refs_val v \<subseteq> ids xs \<union> ids news" by simp
qed

lemma sound_strength_rule_part000: "sound strength_rule_part000"
  unfolding sound_def
proof (intro allI impI)
  fix n xs and I :: "'a word instr" and ys news v
  assume o: "in_order n (xs @ I # ys)"
    and r: "strength_rule_part000 n (xs @ I # ys) I = Some (news, v)"
  note p = in_order_parts [OF o]
  have nx: "n \<notin> ids xs" "Suc n \<notin> ids xs" using p(2) by auto
  show "map ident news = [n..<n + length news] \<and> defs_before_uses (ids xs) news
      \<and> refs_val v \<subseteq> ids xs \<union> ids news"
    using r p(1) nx
    by (induction n "xs @ I # ys" I rule: strength_rule_part000.induct)
       (auto simp: Let_def split: if_splits)
qed

lemma IRBuilder_Create_cases:
  assumes "IRBuilder_Create n b x y = (news, v)"
  shows "(news = [] \<and> refs_val v = {}) \<or> (news = [BinaryOperator n b x y] \<and> v = InstRef n)"
  using assms
  by (induction n b x y rule: IRBuilder_Create.induct) (auto split: option.splits)

lemma sound_strength_rule_TestPass: "sound strength_rule_TestPass"
  unfolding sound_def
proof (intro allI impI)
  fix n xs and I :: "'a word instr" and ys news v
  assume o: "in_order n (xs @ I # ys)"
    and r: "strength_rule_TestPass n (xs @ I # ys) I = Some (news, v)"
  note p = in_order_parts [OF o]
  have nx: "n \<notin> ids xs" "Suc n \<notin> ids xs" using p(2) by auto
  show "map ident news = [n..<n + length news] \<and> defs_before_uses (ids xs) news
      \<and> refs_val v \<subseteq> ids xs \<union> ids news"
    using r p(1) nx
  proof (induction n "xs @ I # ys" I rule: strength_rule_TestPass.induct)
    case (1 n i x c)
    then obtain news1 shifted news2 where
      a: "IRBuilder_Create n Shl x (ConstantInt 4) = (news1, shifted)"
      and b: "IRBuilder_Create (n + length news1) Sub shifted x = (news2, v)"
      and c: "news = news1 @ news2"
      by (auto split: if_splits prod.splits)
    from IRBuilder_Create_cases [OF a] IRBuilder_Create_cases [OF b] c "1.prems"(2,3,4)
    show ?case by auto
  next
    case (2 n i x c)
    then have a: "IRBuilder_Create n LShr x (ConstantInt 3) = (news, v)"
      by (auto split: if_splits)
    from IRBuilder_Create_cases [OF a] "2.prems"(2,3,4)
    show ?case by auto
  next
    case (3 n i x c)
    then have a: "IRBuilder_Create n LShr x (ConstantInt 3) = (news, v)"
      by (auto split: if_splits)
    from IRBuilder_Create_cases [OF a] "3.prems"(2,3,4)
    show ?case by auto
  qed auto
qed

lemma find_append_left: "\<exists>x\<in>set xs. P x \<Longrightarrow> find P (xs @ ys) = find P xs"
  by (induction xs) auto

lemma find_SomeD: "find P xs = Some x \<Longrightarrow> x \<in> set xs \<and> P x"
  by (induction xs) (auto split: if_splits)

lemma defining_add_refs:
  assumes "defining_add (xs @ zs) a = Some b" and "refs_val a \<subseteq> ids xs"
    and "defs_before_uses {} xs"
  shows "refs_val b \<subseteq> ids xs"
proof (cases a)
  case (InstRef j)
  with assms(2) have "\<exists>x\<in>set xs. ident x = j" by (auto simp: ids_def)
  then have f: "find (\<lambda>J. ident J = j) (xs @ zs) = find (\<lambda>J. ident J = j) xs"
    by (rule find_append_left)
  from assms(1) InstRef f obtain i c2 where
    "find (\<lambda>J. ident J = j) xs = Some (BinaryOperator i Add b c2)"
    by (auto split: option.splits instr.splits binop.splits if_splits)
  then have "BinaryOperator i Add b c2 \<in> set xs" by (auto dest: find_SomeD)
  from defs_before_uses_refs [OF assms(3) this] show ?thesis by auto
next
  case (ConstantInt c)
  with assms(1) show ?thesis by simp
next
  case (Argument s)
  with assms(1) show ?thesis by simp
qed

lemma sound_multi_rule_TestPass: "sound multi_rule_TestPass"
  unfolding sound_def
proof (intro allI impI)
  fix n xs and I :: "'a word instr" and ys news v
  assume o: "in_order n (xs @ I # ys)"
    and r: "multi_rule_TestPass n (xs @ I # ys) I = Some (news, v)"
  note p = in_order_parts [OF o]
  from r obtain i a c1 where I: "I = BinaryOperator i Sub a c1"
    and d: "defining_add (xs @ I # ys) a = Some v" and n: "news = []"
    by (induction n "xs @ I # ys" I rule: multi_rule_TestPass.induct)
       (auto split: if_splits option.splits)
  from p(1) I have "refs_val a \<subseteq> ids xs" by simp
  from defining_add_refs [OF d this p(4)] n
  show "map ident news = [n..<n + length news] \<and> defs_before_uses (ids xs) news
      \<and> refs_val v \<subseteq> ids xs \<union> ids news" by simp
qed





lemma rewrite_ids:
  assumes "sound r" and "in_order n (xs @ I # ys)" and "r n (xs @ I # ys) I = Some (news, v)"
  shows "ids news = {n..<n + length news}" and "ident I \<notin> ids xs \<union> ids news \<union> ids ys"
    and "ident I < n"
proof -
  from assms have mi: "map ident news = [n..<n + length news]"
    unfolding sound_def by blast
  then show idn: "ids news = {n..<n + length news}" by (simp add: ids_def)
  from assms(2) have "defs_before_uses {} (xs @ I # ys)" and lt: "\<forall>i\<in>ids (xs @ I # ys). i < n"
    by (auto simp: in_order_def)
  then have "ident I \<notin> ids xs" and "defs_before_uses (insert (ident I) (ids xs)) ys"
    by (auto simp: defs_before_uses_append)
  moreover from defs_before_uses_ids [OF this(2)] have "ident I \<notin> ids ys" by auto
  moreover from lt show "ident I < n" by simp
  ultimately show "ident I \<notin> ids xs \<union> ids news \<union> ids ys" using idn by auto
qed

lemma scan_no_match:
  assumes "\<forall>J\<in>set (rest @ concat ts). r n (concat ds @ pre @ rest @ concat ts) J = None"
  shows "scan r n ds pre rest ts ch = Inr (ds @ [pre @ rest] @ ts, ch)"
  using assms
proof (induction r n ds pre rest ts ch rule: scan.induct)
  case (1 r n ds pre ch)
  show ?case by simp
next
  case (2 r n ds pre b bs ch)
  then show ?case by simp
next
  case (3 r n ds pre I rest ts ch)
  from "3.prems" have n: "r n (concat ds @ pre @ I # rest @ concat ts) I = None" by simp
  from "3.prems" have "\<forall>J\<in>set (rest @ concat ts).
      r n (concat ds @ (pre @ [I]) @ rest @ concat ts) J = None" by simp
  from "3.IH"(1) [OF n this] n show ?case by simp
qed

lemma run_scan_no_match:
  assumes "\<forall>J\<in>set (concat F). r (next_id (concat F)) (concat F) J = None"
  shows "run_scan r F = Inr (F, False)"
proof (cases F)
  case Nil
  then show ?thesis by (simp add: run_scan_def)
next
  case (Cons b bs)
  with assms have "\<forall>J\<in>set (b @ concat bs).
      r (next_id (concat F)) (concat [] @ [] @ b @ concat bs) J = None" by simp
  then have "scan r (next_id (concat F)) [] [] b bs False = Inr ([] @ [[] @ b] @ bs, False)"
    by (rule scan_no_match)
  with Cons show ?thesis by (simp add: run_scan_def)
qed

lemma not_referenced: "defs_before_uses {} L \<Longrightarrow> i \<notin> ids L \<Longrightarrow> use_empty i L"
  unfolding use_empty_iff using defs_before_uses_refs [of "{}" L] by auto

text \<open>An instruction that the rule is bound to match is gone after the scan.\<close>

lemma scan_erases:
  assumes snd: "sound r"
    and stable: "\<And>old new J. P J \<Longrightarrow> P (replaceUsesOfWith old new J)"
    and fires: "\<And>n L J. P J \<Longrightarrow> r n L J \<noteq> None"
    and ord: "in_order n (concat ds @ pre @ rest @ concat ts)"
    and mem: "I0 \<in> set (rest @ concat ts)" and P0: "P I0"
  shows "\<exists>F' ch'. scan r n ds pre rest ts ch = Inr (F', ch')
           \<and> ident I0 \<notin> ids (concat F') \<and> use_empty (ident I0) (concat F')
           \<and> defs_before_uses {} (concat F')"
proof -
  let ?Inv = "\<lambda>n xs ys (ch::bool).
      (\<exists>J\<in>set ys. ident J = ident I0 \<and> P J) \<or> (ident I0 \<notin> ids (xs @ ys) \<and> ident I0 < n)"
  have "\<exists>n' F' ch'. scan r n ds pre rest ts ch = Inr (F', ch')
           \<and> in_order n' (concat F') \<and> ?Inv n' (concat F') [] ch'"
  proof (rule scan_ordered [where Inv = ?Inv, OF snd ord])
    show "?Inv n (concat ds @ pre) (rest @ concat ts) ch" using mem P0 by blast
  next
    fix n xs I ys ch
    assume i: "?Inv n xs (I # ys) ch" and s: "r n (xs @ I # ys) I = None"
    from s fires have "\<not> P I" by blast
    with i show "?Inv n (xs @ [I]) ys ch" by auto
  next
    fix n xs I ys ch news v
    assume i: "?Inv n xs (I # ys) ch" and o: "in_order n (xs @ I # ys)"
      and s: "r n (xs @ I # ys) I = Some (news, v)"
    let ?s = "replaceUsesOfWith (ident I) v"
    note ri = rewrite_ids [OF snd o s]
    from i show "?Inv (n + length news) (xs @ news) (map ?s ys) True"
    proof (elim disjE bexE conjE)
      fix J assume J: "J \<in> set (I # ys)" "ident J = ident I0" "P J"
      show ?thesis
      proof (cases "J = I")
        case True
        with J ri(2) ri(3)
        have "ident I0 \<notin> ids ((xs @ news) @ map ?s ys)" "ident I0 < n + length news"
          by auto
        then show ?thesis by blast
      next
        case False
        with J have "?s J \<in> set (map ?s ys)" by auto
        moreover have "ident (?s J) = ident I0" using J by simp
        moreover have "P (?s J)" using J stable by blast
        ultimately show ?thesis by blast
      qed
    next
      assume a: "ident I0 \<notin> ids (xs @ I # ys)" "ident I0 < n"
      then have "ident I0 \<notin> ids ((xs @ news) @ map ?s ys)" using ri(1) by auto
      with a show ?thesis by simp
    qed
  qed
  then obtain n' F' ch' where
    r: "scan r n ds pre rest ts ch = Inr (F', ch')"
    and o: "in_order n' (concat F')" and n: "ident I0 \<notin> ids (concat F')"
    by auto
  from o have d: "defs_before_uses {} (concat F')" by (simp add: in_order_def)
  from not_referenced [OF d n] r n d show ?thesis by auto
qed

lemma run_scan_erases:
  assumes "sound r"
    and "\<And>old new J. P J \<Longrightarrow> P (replaceUsesOfWith old new J)"
    and "\<And>n L J. P J \<Longrightarrow> r n L J \<noteq> None"
    and "well_formed F" and "I0 \<in> set (concat F)" and "P I0"
  shows "\<exists>F' ch'. run_scan r F = Inr (F', ch')
           \<and> ident I0 \<notin> ids (concat F') \<and> use_empty (ident I0) (concat F')
           \<and> well_formed F'"
proof (cases F)
  case Nil
  with assms(5) show ?thesis by simp
next
  case (Cons b bs)
  from well_formed_in_order [OF assms(4)] Cons
  have o: "in_order (next_id (concat F)) (concat [] @ [] @ b @ concat bs)" by simp
  from assms(5) Cons have m: "I0 \<in> set (b @ concat bs)" by simp
  from scan_erases [of r P, OF assms(1,2,3) o m assms(6), of False] Cons
  show ?thesis by (simp add: run_scan_def well_formed_def)
qed

section \<open>The flag\<close>

lemma scan_flag_stays:
  "scan r n ds pre rest ts ch = Inr (F', ch') \<Longrightarrow> ch \<Longrightarrow> ch'"
proof (induction r n ds pre rest ts ch arbitrary: F' ch' rule: scan.induct)
  case (1 r n ds pre ch)
  then show ?case by simp
next
  case (2 r n ds pre b bs ch)
  then show ?case by simp
next
  case (3 r n ds pre I rest ts ch)
  show ?case
  proof (cases "r n (concat ds @ pre @ I # rest @ concat ts) I")
    case None
    with "3.prems" "3.IH"(1) [OF None] show ?thesis by simp
  next
    case (Some p)
    obtain news v where p: "p = (news, v)" by (cases p)
    show ?thesis
    proof (cases "use_empty (ident I)
             (replaceAllUsesWith (ident I) v (concat ds @ pre @ news @ I # rest @ concat ts))")
      case True
      with "3.prems"(1) Some p have "scan r (n + length news)
                 (map (replaceAllUsesWith (ident I) v) ds)
                 (replaceAllUsesWith (ident I) v (pre @ news))
                 (replaceAllUsesWith (ident I) v rest)
                 (map (replaceAllUsesWith (ident I) v) ts) True = Inr (F', ch')" by simp
      from "3.IH"(2) [OF Some p [symmetric] True this] show ?thesis by simp
    next
      case False
      with "3.prems"(1) Some p show ?thesis by simp
    qed
  qed
qed

lemma scan_unchanged:
  "scan r n ds pre rest ts ch = Inr (F', False) \<Longrightarrow> F' = ds @ [pre @ rest] @ ts"
proof (induction r n ds pre rest ts ch arbitrary: F' rule: scan.induct)
  case (1 r n ds pre ch)
  then show ?case by simp
next
  case (2 r n ds pre b bs ch)
  then show ?case by simp
next
  case (3 r n ds pre I rest ts ch)
  show ?case
  proof (cases "r n (concat ds @ pre @ I # rest @ concat ts) I")
    case None
    with "3.prems" "3.IH"(1) [OF None] show ?thesis by simp
  next
    case (Some p)
    obtain news v where p: "p = (news, v)" by (cases p)
    show ?thesis
    proof (cases "use_empty (ident I)
             (replaceAllUsesWith (ident I) v (concat ds @ pre @ news @ I # rest @ concat ts))")
      case True
      with "3.prems"(1) Some p have "scan r (n + length news)
                 (map (replaceAllUsesWith (ident I) v) ds)
                 (replaceAllUsesWith (ident I) v (pre @ news))
                 (replaceAllUsesWith (ident I) v rest)
                 (map (replaceAllUsesWith (ident I) v) ts) True = Inr (F', False)" by simp
      from scan_flag_stays [OF this] show ?thesis by simp
    next
      case False
      with "3.prems"(1) Some p show ?thesis by simp
    qed
  qed
qed

lemma count_ops_simps [simp]:
  "count_ops T [] = 0"
  "count_ops T (I # L) = (if T (getOpcode I) then Suc (count_ops T L) else count_ops T L)"
  "count_ops T (L @ M) = count_ops T L + count_ops T M"
  "count_ops T (map (replaceUsesOfWith old new) L) = count_ops T L"
  by (simp_all add: count_ops_def filter_map comp_def)

lemma count_ops_none: "\<forall>J\<in>set L. \<not> T (getOpcode J) \<Longrightarrow> count_ops T L = 0"
  by (induction L) auto

lemma scan_changed:
  assumes snd: "sound r"
    and tg: "\<And>n L I news v. r n L I = Some (news, v) \<Longrightarrow>
               T (getOpcode I) \<and> (\<forall>J\<in>set news. \<not> T (getOpcode J))"
    and ord: "in_order n (concat ds @ pre @ rest @ concat ts)"
  shows "\<exists>F' ch'. scan r n ds pre rest ts False = Inr (F', ch')
           \<and> (ch' \<longleftrightarrow> F' \<noteq> ds @ [pre @ rest] @ ts) \<and> defs_before_uses {} (concat F')"
proof -
  define c0 where "c0 = count_ops T (concat ds @ pre @ rest @ concat ts)"
  let ?Inv = "\<lambda>(n::nat) xs ys ch. count_ops T (xs @ ys) \<le> c0 \<and> (ch \<longrightarrow> count_ops T (xs @ ys) < c0)"
  have "\<exists>n' F' ch'. scan r n ds pre rest ts False = Inr (F', ch')
           \<and> in_order n' (concat F') \<and> ?Inv n' (concat F') [] ch'"
  proof (rule scan_ordered [where Inv = ?Inv, OF snd ord])
    show "?Inv n (concat ds @ pre) (rest @ concat ts) False" by (simp add: c0_def)
  next
    fix n xs I ys ch
    assume "?Inv n xs (I # ys) ch"
    then show "?Inv n (xs @ [I]) ys ch" by simp
  next
    fix n xs I ys ch news v
    assume i: "?Inv n xs (I # ys) ch" and s: "r n (xs @ I # ys) I = Some (news, v)"
    from tg [OF s] have "T (getOpcode I)" and "count_ops T news = 0"
      by (auto intro: count_ops_none)
    with i show "?Inv (n + length news) (xs @ news) (map (replaceUsesOfWith (ident I) v) ys) True"
      by simp
  qed
  then obtain n' F' ch' where r: "scan r n ds pre rest ts False = Inr (F', ch')"
    and o: "in_order n' (concat F')" and c: "ch' \<longrightarrow> count_ops T (concat F') < c0"
    by auto
  have "ch' \<longleftrightarrow> F' \<noteq> ds @ [pre @ rest] @ ts"
  proof
    assume ch'
    with c have "count_ops T (concat F') \<noteq> count_ops T (concat (ds @ [pre @ rest] @ ts))"
      by (simp add: c0_def)
    then show "F' \<noteq> ds @ [pre @ rest] @ ts" by auto
  next
    assume "F' \<noteq> ds @ [pre @ rest] @ ts"
    with scan_unchanged [of r n ds pre rest ts False F'] r show ch' by (cases ch') auto
  qed
  with r o show ?thesis by (auto simp: in_order_def)
qed

lemma run_scan_changed:
  assumes "sound r"
    and "\<And>n L I news v. r n L I = Some (news, v) \<Longrightarrow>
               T (getOpcode I) \<and> (\<forall>J\<in>set news. \<not> T (getOpcode J))"
    and "well_formed F"
  shows "\<exists>F' ch'. run_scan r F = Inr (F', ch') \<and> (ch' \<longleftrightarrow> F' \<noteq> F) \<and> well_formed F'"
proof (cases F)
  case Nil
  then have "run_scan r F = Inr ([], False) \<and> (False \<longleftrightarrow> [] \<noteq> F) \<and> well_formed ([] :: 'a func)"
    by (simp add: run_scan_def well_formed_def)
  then show ?thesis by blast
next
  case (Cons b bs)
  from well_formed_in_order [OF assms(3)] Cons
  have o: "in_order (next_id (concat F)) (concat [] @ [] @ b @ concat bs)" by simp
  from scan_changed [of r T, OF assms(1,2) o] Cons
  show ?thesis by (simp add: run_scan_def well_formed_def)
qed

section \<open>Nothing is left to match\<close>

lemma quiet_append: "quiet r xs (ys @ zs) = (quiet r xs ys \<and> quiet r (xs @ ys) zs)"
  by (induction ys arbitrary: xs) auto

lemma quiet_all: "\<forall>J\<in>set zs. \<forall>n L. r n L J = None \<Longrightarrow> quiet r xs zs"
  by (induction zs arbitrary: xs) auto

lemma quiet_member:
  assumes "quiet r [] L" and "J \<in> set L"
  shows "r n L J = None"
proof -
  from assms(2) obtain ys zs where L: "L = ys @ J # zs" by (auto dest: split_list)
  with assms(1) have "quiet r ys (J # zs)" by (simp add: quiet_append)
  then show ?thesis unfolding L by simp
qed

lemma scan_quiet:
  assumes snd: "sound r" and st: "settles r"
    and nq: "\<And>n L I news v. r n L I = Some (news, v) \<Longrightarrow> \<forall>J\<in>set news. \<forall>n L. r n L J = None"
    and ord: "in_order n (concat ds @ pre @ rest @ concat ts)"
    and q: "quiet r [] (concat ds @ pre)"
  shows "\<exists>F' ch'. scan r n ds pre rest ts ch = Inr (F', ch')
           \<and> quiet r [] (concat F') \<and> defs_before_uses {} (concat F')"
proof -
  let ?Inv = "\<lambda>(n::nat) xs (ys :: 'a instr list) (ch::bool). quiet r [] xs"
  have "\<exists>n' F' ch'. scan r n ds pre rest ts ch = Inr (F', ch')
           \<and> in_order n' (concat F') \<and> ?Inv n' (concat F') [] ch'"
  proof (rule scan_ordered [where Inv = ?Inv, OF snd ord])
    show "?Inv n (concat ds @ pre) (rest @ concat ts) ch" by (rule q)
  next
    fix n xs I ys ch
    assume i: "?Inv n xs (I # ys) ch" and o: "in_order n (xs @ I # ys)"
      and s: "r n (xs @ I # ys) I = None"
    from o have "defs_before_uses {} (xs @ [I])"
      by (simp add: in_order_def defs_before_uses_append)
    with st s have "\<forall>n' zs. r n' (xs @ I # zs) I = None" unfolding settles_def by blast
    with i show "?Inv n (xs @ [I]) ys ch" by (simp add: quiet_append)
  next
    fix n xs I ys ch news v
    assume i: "?Inv n xs (I # ys) ch" and s: "r n (xs @ I # ys) I = Some (news, v)"
    from nq [OF s] have "quiet r xs news" by (rule quiet_all)
    with i show "?Inv (n + length news) (xs @ news) (map (replaceUsesOfWith (ident I) v) ys) True"
      by (simp add: quiet_append)
  qed
  then show ?thesis by (auto simp: in_order_def)
qed

lemma run_scan_twice:
  assumes "sound r" and "settles r"
    and "\<And>n L I news v. r n L I = Some (news, v) \<Longrightarrow> \<forall>J\<in>set news. \<forall>n L. r n L J = None"
    and "well_formed F"
  shows "\<exists>F' ch'. run_scan r F = Inr (F', ch') \<and> run_scan r F' = Inr (F', False)
           \<and> well_formed F'"
proof (cases F)
  case Nil
  then have "run_scan r F = Inr ([], False) \<and> run_scan r [] = Inr ([], False)
      \<and> well_formed ([] :: 'a func)"
    by (simp add: run_scan_def well_formed_def)
  then show ?thesis by blast
next
  case (Cons b bs)
  from well_formed_in_order [OF assms(4)] Cons
  have o: "in_order (next_id (concat F)) (concat [] @ [] @ b @ concat bs)" by simp
  have "\<exists>F' ch'. scan r (next_id (concat F)) [] [] b bs False = Inr (F', ch')
           \<and> quiet r [] (concat F') \<and> defs_before_uses {} (concat F')"
  proof (rule scan_quiet [OF assms(1,2)])
    show "\<And>n L I news v. r n L I = Some (news, v) \<Longrightarrow> \<forall>J\<in>set news. \<forall>n L. r n L J = None"
      by (rule assms(3))
    show "in_order (next_id (concat F)) (concat [] @ [] @ b @ concat bs)" by (rule o)
    show "quiet r [] (concat [] @ [])" by simp
  qed
  with Cons obtain F' ch' where r: "run_scan r F = Inr (F', ch')" and q: "quiet r [] (concat F')"
    and d: "well_formed F'" by (auto simp: run_scan_def well_formed_def)
  have "\<forall>J\<in>set (concat F'). r (next_id (concat F')) (concat F') J = None"
  proof
    fix J assume "J \<in> set (concat F')"
    with q show "r (next_id (concat F')) (concat F') J = None" by (rule quiet_member)
  qed
  then have "run_scan r F' = Inr (F', False)" by (rule run_scan_no_match)
  with r d show ?thesis by blast
qed

section \<open>Facts about the rules\<close>

lemma subst_val_ConstantInt [simp]: "subst_val old new (ConstantInt c) = ConstantInt c"
  by (simp add: subst_val_def)

lemma subst_val_eq_ConstantInt: "v = ConstantInt c \<Longrightarrow> subst_val old new v = ConstantInt c"
  by simp

lemma equalsInt_subst_val: "equalsInt k v \<Longrightarrow> equalsInt k (subst_val old new v)"
  by (cases v) auto


text \<open>Algebraic identity, part\_000.\<close>

lemma identity_part000_stable:
  "identity_part000 J \<noteq> None \<Longrightarrow> identity_part000 (replaceUsesOfWith old new J) \<noteq> None"
  by (induction J rule: identity_part000.induct) (auto split: if_splits)

lemma algebraic_rule_part000_None [simp]:
  "algebraic_rule_part000 n L J = None \<longleftrightarrow> identity_part000 J = None"
  by (simp add: algebraic_rule_part000_def split: option.splits)

lemma algebraic_rule_part000_news:
  "algebraic_rule_part000 n L I = Some (news, v) \<Longrightarrow> news = []"
  by (auto simp: algebraic_rule_part000_def split: option.splits)

lemma settles_algebraic_rule_part000: "settles algebraic_rule_part000"
  by (simp add: settles_def)

text \<open>Strength reduction, part\_000.\<close>

lemma strength_rule_part000_None:
  "strength_rule_part000 n L J = None \<longleftrightarrow> \<not> reducible_part000 J"
  by (induction n L J rule: strength_rule_part000.induct)
     (auto simp: reducible_part000_def Let_def)

lemma reducible_part000_stable:
  "reducible_part000 J \<Longrightarrow> reducible_part000 (replaceUsesOfWith old new J)"
  by (cases J rule: instr.exhaust)
     (auto simp: reducible_part000_def equalsInt_subst_val split: binop.splits)

lemma strength_rule_part000_news:
  assumes "strength_rule_part000 n L I = Some (news, v)"
  shows "\<forall>J\<in>set news. \<not> reducible_part000 J"
  using assms
  by (induction n L I rule: strength_rule_part000.induct)
     (auto simp: reducible_part000_def Let_def split: if_splits)

lemma settles_strength_rule_part000: "settles strength_rule_part000"
  by (simp add: settles_def strength_rule_part000_None)

text \<open>Strength reduction, TestPass.cpp.\<close>

lemma strength_rule_TestPass_None:
  "strength_rule_TestPass n L J = None \<longleftrightarrow> \<not> reducible_TestPass J"
  by (induction n L J rule: strength_rule_TestPass.induct)
     (auto simp: reducible_TestPass_def split: prod.splits)

lemma reducible_TestPass_stable:
  "reducible_TestPass J \<Longrightarrow> reducible_TestPass (replaceUsesOfWith old new J)"
  by (cases J rule: instr.exhaust)
     (auto simp: reducible_TestPass_def equalsInt_subst_val split: binop.splits)

lemma IRBuilder_Create_opcode:
  "IRBuilder_Create n b x y = (news, v) \<Longrightarrow> \<forall>J\<in>set news. getOpcode J = BinOp b"
  by (drule IRBuilder_Create_cases) auto

lemma strength_rule_TestPass_news_opcode:
  assumes "strength_rule_TestPass n L I = Some (news, v)"
  shows "getOpcode I \<in> {BinOp Mul, BinOp SDiv, BinOp UDiv}
    \<and> (\<forall>J\<in>set news. getOpcode J \<in> {BinOp Shl, BinOp Sub, BinOp LShr})"
  using assms
proof (induction n L I rule: strength_rule_TestPass.induct)
  case (1 n F i x c)
  then obtain news1 shifted news2 where
    a: "IRBuilder_Create n Shl x (ConstantInt 4) = (news1, shifted)"
    and b: "IRBuilder_Create (n + length news1) Sub shifted x = (news2, v)"
    and c: "news = news1 @ news2"
    by (auto split: if_splits prod.splits)
  from IRBuilder_Create_opcode [OF a] IRBuilder_Create_opcode [OF b] c
  show ?case by auto
next
  case (2 n F i x c)
  then have a: "IRBuilder_Create n LShr x (ConstantInt 3) = (news, v)"
    by (auto split: if_splits)
  from IRBuilder_Create_opcode [OF a] show ?case by auto
next
  case (3 n F i x c)
  then have a: "IRBuilder_Create n LShr x (ConstantInt 3) = (news, v)"
    by (auto split: if_splits)
  from IRBuilder_Create_opcode [OF a] show ?case by auto
qed auto






lemma multi_rule_TestPass_news:
  "multi_rule_TestPass n L I = Some (news, v) \<Longrightarrow> news = [] \<and> getOpcode I = BinOp Sub"
  by (induction n L I rule: multi_rule_TestPass.induct) (auto split: if_splits option.splits)

section \<open>The look-ahead of part\_000\<close>

lemma getOpcode_look_ahead:
  "map getOpcode (look_ahead I rest) = map getOpcode rest"
  by (induction I rest rule: look_ahead.induct) (auto split: option.splits)

lemma ident_look_ahead:
  "map ident (look_ahead I rest) = map ident rest"
  by (induction I rest rule: look_ahead.induct) (auto split: option.splits)

lemma getOpcode_multi_scan: "map getOpcode (multi_scan b) = map getOpcode b"
proof (induction b rule: multi_scan.induct)
  case 1
  show ?case by simp
next
  case (2 I rest)
  then show ?case by (simp add: getOpcode_look_ahead)
qed

lemma ident_multi_scan: "map ident (multi_scan b) = map ident b"
proof (induction b rule: multi_scan.induct)
  case 1
  show ?case by simp
next
  case (2 I rest)
  then show ?case by (simp add: ident_look_ahead)
qed

lemma length_multi_scan: "length (multi_scan b) = length b"
  using getOpcode_multi_scan [of b, THEN arg_cong, of length] by simp

lemma look_ahead_changes:
  assumes "look_ahead I rest \<noteq> rest"
  shows "\<exists>s p l c k b rest'.
           rest = StoreInst s (InstRef (ident I)) p # LoadInst l p
                    # BinaryOperator c Sub (InstRef l) (ConstantInt k) # rest'
           \<and> unat k = 1 \<and> add_one_operand I = Some b
           \<and> look_ahead I rest = StoreInst s (InstRef (ident I)) p # LoadInst l p
                    # BinaryOperator c Sub b (ConstantInt k) # rest'"
  using assms
proof (induction I rest rule: look_ahead.induct)
  case (1 I s v p l q c t k rest)
  then have m: "v = InstRef (ident I) \<and> q = p \<and> t = InstRef l \<and> equalsInt 1 k"
    and a: "add_one_operand I \<noteq> None"
    by (auto split: option.splits if_splits)
  from m obtain k' where "k = ConstantInt k'" "unat k' = 1" by (cases k) auto
  with m a show ?case by auto
qed simp_all












lemma operand0_of_sub_only_refl [simp]: "operand0_of_sub_only J J"
  by (simp add: operand0_of_sub_only_def)

lemma operand0_of_sub_only_trans:
  "operand0_of_sub_only J J' \<Longrightarrow> operand0_of_sub_only J' J'' \<Longrightarrow> operand0_of_sub_only J J''"
  by (auto simp: operand0_of_sub_only_def)

lemma operand0_look_ahead: "list_all2 operand0_of_sub_only rest (look_ahead I rest)"
proof (cases "look_ahead I rest = rest")
  case True
  then show ?thesis by (simp add: list_all2_refl)
next
  case False
  from look_ahead_changes [OF this] obtain s p l c k b rest' where
    "rest = StoreInst s (InstRef (ident I)) p # LoadInst l p
                    # BinaryOperator c Sub (InstRef l) (ConstantInt k) # rest'"
    "look_ahead I rest = StoreInst s (InstRef (ident I)) p # LoadInst l p
                    # BinaryOperator c Sub b (ConstantInt k) # rest'"
    by blast
  then show ?thesis by (auto simp: list_all2_refl operand0_of_sub_only_def)
qed

lemma operand0_multi_scan: "list_all2 operand0_of_sub_only b (multi_scan b)"
proof (induction b rule: multi_scan.induct)
  case 1
  show ?case by simp
next
  case (2 I rest)
  from operand0_look_ahead [of rest I] "2.IH"
  have "list_all2 operand0_of_sub_only rest (multi_scan (look_ahead I rest))"
    by (rule list_all2_trans [rotated]) (rule operand0_of_sub_only_trans)
  then show ?case by simp
qed

lemma operand0_pass:
  "list_all2 (list_all2 operand0_of_sub_only) F (fst (MultiInstructionOptimizationPass F))"
  by (simp add: MultiInstructionOptimizationPass_def list_all2_map2 operand0_multi_scan
      list_all2_refl)

section \<open>Arithmetic of the rewrites\<close>

lemma unat_const: "unat (c :: 'a::len word) = k \<Longrightarrow> c = of_nat k"
  by auto

lemma width_from_unat: "unat (c :: 'a::len word) = k \<Longrightarrow> k < 2 ^ LENGTH('a)"
  using unsigned_less [of c] by auto

lemma unat_small:
  assumes "unat (c :: 'a::len word) = k" and "j \<le> k"
  shows "unat (of_nat j :: 'a word) = j"
proof -
  from width_from_unat [OF assms(1)] assms(2) have "j < 2 ^ LENGTH('a)" by simp
  then show ?thesis by (simp add: unat_of_nat)
qed


lemma udiv8_is_shift:
  assumes "unat (c :: 'a::len word) = 8"
  shows "y div c = drop_bit 3 y"
proof -
  from assms have "c = 8" by (auto dest: unat_const)
  then show ?thesis by (simp add: drop_bit_eq_div)
qed

lemma length_ge_4:
  assumes "unat (c :: 'a::len word) = 8"
  shows "4 \<le> LENGTH('a)"
proof (rule ccontr)
  assume "\<not> 4 \<le> LENGTH('a)"
  then have "LENGTH('a) \<le> 3" by simp
  then have "(2::nat) ^ LENGTH('a) \<le> 2 ^ 3" by (rule power_increasing) simp
  with width_from_unat [OF assms] show False by simp
qed

lemma sint_nonneg_bit: "0 \<le> sint (y :: 'a::len word) \<Longrightarrow> \<not> bit y (LENGTH('a) - Suc 0)"
  by (simp add: bit_last_iff)

lemma ashr_is_lshr:
  assumes "0 \<le> sint (y :: 'a::len word)"
  shows "signed_drop_bit m y = drop_bit m y"
proof (rule bit_word_eqI)
  fix n assume "n < LENGTH('a)"
  with sint_nonneg_bit [OF assms] show "bit (signed_drop_bit m y) n = bit (drop_bit m y) n"
    by (auto simp: bit_signed_drop_bit_iff bit_drop_bit_eq dest: bit_imp_le_length)
qed

lemma sint_eight:
  assumes "unat (c :: 'a::len word) = 8"
  shows "sint c = (if LENGTH('a) = 4 then - 8 else 8)"
proof -
  have "uint c = int (unat c)" by simp
  with assms have u: "uint c = 8" by simp
  have s: "sint c = signed_take_bit (LENGTH('a) - Suc 0) (8::int)"
    by (subst sint_uint) (simp only: u)
  note l = length_ge_4 [OF assms]
  show ?thesis
  proof (cases "LENGTH('a) = 4")
    case True
    have "signed_take_bit (3::nat) (8::int) = - 8" by (simp add: signed_take_bit_eq_take_bit_shift)
    with True s show ?thesis by simp
  next
    case False
    with l have "5 \<le> LENGTH('a)" by simp
    then have "(2::int) ^ 4 \<le> 2 ^ (LENGTH('a) - Suc 0)" by (intro power_increasing) auto
    then have "signed_take_bit (LENGTH('a) - Suc 0) (8::int) = 8"
      by (intro signed_take_bit_int_eq_self) auto
    with False s show ?thesis by simp
  qed
qed

lemma sdiv8_is_shift:
  assumes c: "unat (c :: 'a::len word) = 8" and y: "0 \<le> sint y"
  shows "word_sdiv y c = signed_drop_bit 3 y"
proof -
  have "sint y sdiv sint c = sint y div 8"
  proof (cases "LENGTH('a) = 4")
    case True
    with sint_lt [of y] have "sint y < 8" by simp
    with y True show ?thesis by (simp add: sint_eight [OF c] signed_divide_int_def)
  next
    case False
    with y show ?thesis by (simp add: sint_eight [OF c] signed_divide_int_def sgn_if)
  qed
  moreover have "signed_drop_bit 3 y = word_of_int (sint (signed_drop_bit 3 y))" by simp
  ultimately show ?thesis
    by (simp add: word_sdiv_def sint_signed_drop_bit_eq drop_bit_eq_div)
qed

lemma sdiv8_defined:
  assumes c: "unat (c :: 'a::len word) = 8" and y: "0 \<le> sint y"
  shows "eval_binop SDiv y c = Some (word_sdiv y c)"
proof -
  from c have "c \<noteq> 0" by auto
  moreover from y have "sint y \<noteq> - (2 ^ (LENGTH('a) - 1))" by auto
  ultimately show ?thesis by simp
qed

section \<open>The passes on well-formed functions\<close>

lemma AlgebraicIdentityPass_part000_twice:
  assumes "well_formed F"
  shows "\<exists>F'. AlgebraicIdentityPass_part000 F = Inr (F', PA_none)
           \<and> AlgebraicIdentityPass_part000 F' = Inr (F', PA_none) \<and> well_formed F'"
proof -
  have "\<exists>F' ch'. run_scan algebraic_rule_part000 F = Inr (F', ch')
          \<and> run_scan algebraic_rule_part000 F' = Inr (F', False) \<and> well_formed F'"
  proof (rule run_scan_twice [OF sound_algebraic_rule_part000 settles_algebraic_rule_part000 _ assms])
    fix n L and I :: "'a word instr" and news v
    assume "algebraic_rule_part000 n L I = Some (news, v)"
    from algebraic_rule_part000_news [OF this]
    show "\<forall>J\<in>set news. \<forall>n L. algebraic_rule_part000 n L J = None" by simp
  qed
  then show ?thesis by (auto simp: AlgebraicIdentityPass_part000_def report_none_def)
qed

lemma StrengthReductionPass_part000_twice:
  assumes "well_formed F"
  shows "\<exists>F'. StrengthReductionPass_part000 F = Inr (F', PA_none)
           \<and> StrengthReductionPass_part000 F' = Inr (F', PA_none) \<and> well_formed F'"
proof -
  have "\<exists>F' ch'. run_scan strength_rule_part000 F = Inr (F', ch')
          \<and> run_scan strength_rule_part000 F' = Inr (F', False) \<and> well_formed F'"
  proof (rule run_scan_twice [OF sound_strength_rule_part000 settles_strength_rule_part000 _ assms])
    fix n L and I :: "'a word instr" and news v
    assume "strength_rule_part000 n L I = Some (news, v)"
    from strength_rule_part000_news [OF this]
    show "\<forall>J\<in>set news. \<forall>n L. strength_rule_part000 n L J = None"
      by (simp add: strength_rule_part000_None)
  qed
  then show ?thesis by (auto simp: StrengthReductionPass_part000_def report_none_def)
qed



lemma algebraic_block_TestPass_None:
  "algebraic_block_TestPass L b = None \<longleftrightarrow> (\<forall>J\<in>set b. identity_TestPass J = None)"
  by (induction b) (auto split: option.splits)

lemma algebraic_blocks_TestPass_None:
  "algebraic_blocks_TestPass L bs = None \<longleftrightarrow> (\<forall>J\<in>set (concat bs). identity_TestPass J = None)"
proof (induction bs)
  case Nil
  show ?case by simp
next
  case (Cons b bs)
  show ?case
  proof (cases "algebraic_block_TestPass L b")
    case None
    with Cons algebraic_block_TestPass_None [of L b] show ?thesis by auto
  next
    case (Some e)
    with algebraic_block_TestPass_None [of L b] show ?thesis by auto
  qed
qed

lemma AlgebraicIdentityPass_TestPass_Inr:
  "AlgebraicIdentityPass_TestPass F = Inr (F', pa) \<longleftrightarrow>
     (\<forall>J\<in>set (concat F). identity_TestPass J = None) \<and> F' = F \<and> pa = PA_all"
proof (cases "algebraic_blocks_TestPass (concat F) F")
  case None
  with algebraic_blocks_TestPass_None [of "concat F" F] show ?thesis
    by (auto simp: AlgebraicIdentityPass_TestPass_def)
next
  case (Some e)
  with algebraic_blocks_TestPass_None [of "concat F" F] show ?thesis
    by (auto simp: AlgebraicIdentityPass_TestPass_def)
qed

lemma StrengthReductionPass_TestPass_changed:
  assumes "well_formed F"
  shows "\<exists>F' pa. StrengthReductionPass_TestPass F = Inr (F', pa)
           \<and> (pa = PA_none \<longleftrightarrow> F' \<noteq> F) \<and> (pa = PA_all \<longleftrightarrow> F' = F)"
proof -
  let ?T = "\<lambda>opc. opc \<in> {BinOp Mul, BinOp SDiv, BinOp UDiv}"
  have "\<exists>F' ch'. run_scan strength_rule_TestPass F = Inr (F', ch')
          \<and> (ch' \<longleftrightarrow> F' \<noteq> F) \<and> well_formed F'"
  proof (rule run_scan_changed [where T = ?T, OF sound_strength_rule_TestPass _ assms])
    fix n L and I :: "'a word instr" and news v
    assume "strength_rule_TestPass n L I = Some (news, v)"
    from strength_rule_TestPass_news_opcode [OF this]
    show "?T (getOpcode I) \<and> (\<forall>J\<in>set news. \<not> ?T (getOpcode J))" by auto
  qed
  then show ?thesis by (auto simp: StrengthReductionPass_TestPass_def report_changed_def)
qed

lemma MultiInstructionOptPass_changed:
  assumes "well_formed F"
  shows "\<exists>F' pa. MultiInstructionOptPass F = Inr (F', pa)
           \<and> (pa = PA_none \<longleftrightarrow> F' \<noteq> F) \<and> (pa = PA_all \<longleftrightarrow> F' = F)"
proof -
  let ?T = "\<lambda>opc. opc = BinOp Sub"
  have "\<exists>F' ch'. run_scan multi_rule_TestPass F = Inr (F', ch')
          \<and> (ch' \<longleftrightarrow> F' \<noteq> F) \<and> well_formed F'"
  proof (rule run_scan_changed [where T = ?T, OF sound_multi_rule_TestPass _ assms])
    fix n L and I :: "'a word instr" and news v
    assume "multi_rule_TestPass n L I = Some (news, v)"
    from multi_rule_TestPass_news [OF this]
    show "?T (getOpcode I) \<and> (\<forall>J\<in>set news. \<not> ?T (getOpcode J))" by auto
  qed
  then show ?thesis by (auto simp: MultiInstructionOptPass_def report_changed_def)
qed



lemma StrengthReductionPass_TestPass_no_match:
  "\<forall>J\<in>set (concat F). strength_rule_TestPass 0 [] J = None
   \<Longrightarrow> StrengthReductionPass_TestPass F = Inr (F, PA_all)"
  using run_scan_no_match [of F strength_rule_TestPass]
  by (simp add: StrengthReductionPass_TestPass_def report_changed_def strength_rule_TestPass_None)

lemma MultiInstructionOptPass_no_match:
  "\<forall>J\<in>set (concat F). multi_rule_TestPass (next_id (concat F)) (concat F) J = None
   \<Longrightarrow> MultiInstructionOptPass F = Inr (F, PA_all)"
  using run_scan_no_match [of F multi_rule_TestPass]
  by (simp add: MultiInstructionOptPass_def report_changed_def)


lemma scan_step:
  assumes "r n (concat ds @ pre @ I # rest @ concat ts) I = Some (news, v)"
    and "use_empty (ident I)
           (replaceAllUsesWith (ident I) v (concat ds @ pre @ news @ I # rest @ concat ts))"
  shows "scan r n ds pre (I # rest) ts ch
       = scan r (n + length news)
           (map (replaceAllUsesWith (ident I) v) ds)
           (replaceAllUsesWith (ident I) v (pre @ news))
           (replaceAllUsesWith (ident I) v rest)
           (map (replaceAllUsesWith (ident I) v) ts) True"
  using assms by simp

lemma AlgebraicIdentityPass_part000_erases:
  assumes "well_formed F" and "I \<in> set (concat F)" and "identity_part000 I \<noteq> None"
  shows "\<exists>F' pa. AlgebraicIdentityPass_part000 F = Inr (F', pa) \<and> well_formed F'
           \<and> ident I \<notin> ids (concat F') \<and> use_empty (ident I) (concat F')"
proof -
  have "\<exists>F' ch'. run_scan algebraic_rule_part000 F = Inr (F', ch')
           \<and> ident I \<notin> ids (concat F') \<and> use_empty (ident I) (concat F') \<and> well_formed F'"
  proof (rule run_scan_erases [where P = "\<lambda>J. identity_part000 J \<noteq> None",
        OF sound_algebraic_rule_part000 _ _ assms])
    fix old and new :: "'a word val" and J :: "'a word instr"
    assume "identity_part000 J \<noteq> None"
    then show "identity_part000 (replaceUsesOfWith old new J) \<noteq> None"
      by (rule identity_part000_stable)
  next
    fix n and L :: "'a word instr list" and J :: "'a word instr"
    assume "identity_part000 J \<noteq> None"
    then show "algebraic_rule_part000 n L J \<noteq> None" by simp
  qed
  then show ?thesis by (auto simp: AlgebraicIdentityPass_part000_def report_none_def)
qed

lemma StrengthReductionPass_part000_erases:
  assumes "well_formed F" and "I \<in> set (concat F)" and "reducible_part000 I"
  shows "\<exists>F' pa. StrengthReductionPass_part000 F = Inr (F', pa) \<and> well_formed F'
           \<and> ident I \<notin> ids (concat F') \<and> use_empty (ident I) (concat F')"
proof -
  have "\<exists>F' ch'. run_scan strength_rule_part000 F = Inr (F', ch')
           \<and> ident I \<notin> ids (concat F') \<and> use_empty (ident I) (concat F') \<and> well_formed F'"
  proof (rule run_scan_erases [where P = reducible_part000,
        OF sound_strength_rule_part000 _ _ assms])
    fix old and new :: "'a word val" and J :: "'a word instr"
    assume "reducible_part000 J"
    then show "reducible_part000 (replaceUsesOfWith old new J)"
      by (rule reducible_part000_stable)
  next
    fix n and L :: "'a word instr list" and J :: "'a word instr"
    assume "reducible_part000 J"
    then show "strength_rule_part000 n L J \<noteq> None" by (simp add: strength_rule_part000_None)
  qed
  then show ?thesis by (auto simp: StrengthReductionPass_part000_def report_none_def)
qed

lemma StrengthReductionPass_TestPass_erases:
  assumes "well_formed F" and "I \<in> set (concat F)" and "reducible_TestPass I"
  shows "\<exists>F' pa. StrengthReductionPass_TestPass F = Inr (F', pa) \<and> well_formed F'
           \<and> ident I \<notin> ids (concat F') \<and> use_empty (ident I) (concat F')"
proof -
  have "\<exists>F' ch'. run_scan strength_rule_TestPass F = Inr (F', ch')
           \<and> ident I \<notin> ids (concat F') \<and> use_empty (ident I) (concat F') \<and> well_formed F'"
  proof (rule run_scan_erases [where P = reducible_TestPass,
        OF sound_strength_rule_TestPass _ _ assms])
    fix old and new :: "'a word val" and J :: "'a word instr"
    assume "reducible_TestPass J"
    then show "reducible_TestPass (replaceUsesOfWith old new J)"
      by (rule reducible_TestPass_stable)
  next
    fix n and L :: "'a word instr list" and J :: "'a word instr"
    assume "reducible_TestPass J"
    then show "strength_rule_TestPass n L J \<noteq> None" by (simp add: strength_rule_TestPass_None)
  qed
  then show ?thesis by (auto simp: StrengthReductionPass_TestPass_def report_changed_def)
qed

lemma IRBuilder_Create_not_constant:
  "\<not> isConstantInt x \<Longrightarrow> IRBuilder_Create n b x y = ([BinaryOperator n b x y], InstRef n)"
  by (cases x) simp_all

lemma IRBuilder_Create_InstRef [simp]:
  "IRBuilder_Create n b (InstRef j) y = ([BinaryOperator n b (InstRef j) y], InstRef n)"
  by simp



lemma unat_three: "unat (c :: 'a::len word) = 8 \<Longrightarrow> unat (3 :: 'a word) = 3"
  using unat_small [of c 8 3] by simp


section \<open>The claims\<close>

text \<open>
  C10.  The multi-instruction pass of part\_000 neither inserts nor erases: after one
  run the function has the same blocks, each with the same number of instructions,
  the same instructions by identity, and the same sequence of opcodes; instruction by
  instruction, the result is the input or, for a \<open>Sub\<close>, the input with another first
  operand.
\<close>

theorem multi_part000_keeps_shape:
  "length (fst (MultiInstructionOptimizationPass F)) = length F
   \<and> map length (fst (MultiInstructionOptimizationPass F)) = map length F
   \<and> map (map ident) (fst (MultiInstructionOptimizationPass F)) = map (map ident) F
   \<and> map (map getOpcode) (fst (MultiInstructionOptimizationPass F)) = map (map getOpcode) F
   \<and> list_all2 (list_all2 operand0_of_sub_only) F (fst (MultiInstructionOptimizationPass F))"
  using operand0_pass [of F]
  by (simp add: MultiInstructionOptimizationPass_def getOpcode_multi_scan
      ident_multi_scan length_multi_scan comp_def)

text \<open>
  C1.  The chain \<open>a = add b, 1; store a, slot; t = load slot; c = sub t, 1\<close> is matched
  by the multi-instruction pass of part\_000, which overwrites operand 0 of the \<open>sub\<close>
  with \<open>b\<close> and keeps the constant: \<open>c\<close> becomes \<open>sub b, 1\<close>.  With \<open>b = 10\<close> the result
  of \<open>c\<close> is 10 before the pass and 9 after it; the pass of TestPass.cpp leaves this
  chain as it is.
\<close>

theorem multi_part000_round_trip_result:
  "MultiInstructionOptimizationPass
     [[BinaryOperator 0 Add (Argument ''b'') (ConstantInt (1 :: 32 word)),
       StoreInst 1 (InstRef 0) (Argument ''slot''),
       LoadInst 2 (Argument ''slot''),
       BinaryOperator 3 Sub (InstRef 2) (ConstantInt 1)]]
   = ([[BinaryOperator 0 Add (Argument ''b'') (ConstantInt 1),
        StoreInst 1 (InstRef 0) (Argument ''slot''),
        LoadInst 2 (Argument ''slot''),
        BinaryOperator 3 Sub (Argument ''b'') (ConstantInt 1)]], PA_none)
   \<and> result_of (\<lambda>a. if a = ''b'' then 10 else 0)
        [BinaryOperator 0 Add (Argument ''b'') (ConstantInt (1 :: 32 word)),
         StoreInst 1 (InstRef 0) (Argument ''slot''),
         LoadInst 2 (Argument ''slot''),
         BinaryOperator 3 Sub (InstRef 2) (ConstantInt 1)] 3 = Some 10
   \<and> result_of (\<lambda>a. if a = ''b'' then 10 else 0)
        [BinaryOperator 0 Add (Argument ''b'') (ConstantInt (1 :: 32 word)),
         StoreInst 1 (InstRef 0) (Argument ''slot''),
         LoadInst 2 (Argument ''slot''),
         BinaryOperator 3 Sub (Argument ''b'') (ConstantInt 1)] 3 = Some 9"
  by (simp add: MultiInstructionOptimizationPass_def result_of_def)

text \<open>
  C6.  On \<open>r = add x, 0\<close> followed by a user of \<open>r\<close>, the algebraic-identity pass of
  TestPass.cpp replaces the uses, erases \<open>r\<close> and then advances the loop's iterator
  from the erased instruction: the scan does not resume at the following
  instruction.  The pass of part\_000, which advances before it erases, finishes on
  the same input.
\<close>

theorem algebraic_TestPass_advances_from_erased:
  "AlgebraicIdentityPass_TestPass
     [[BinaryOperator 0 Add (Argument ''x'') (ConstantInt (0 :: 32 word)),
       OtherInst 1 [InstRef 0]]] = Inl UseAfterErase
   \<and> AlgebraicIdentityPass_part000
     [[BinaryOperator 0 Add (Argument ''x'') (ConstantInt (0 :: 32 word)),
       OtherInst 1 [InstRef 0]]] = Inr ([[OtherInst 1 [Argument ''x'']]], PA_none)"
  by (simp add: AlgebraicIdentityPass_TestPass_def AlgebraicIdentityPass_part000_def
      report_none_def run_scan_def algebraic_rule_part000_def next_id_def
      replaceAllUsesWith_def use_empty_def subst_val_def)



text \<open>
  C5 as stated fails for part\_000: a function in which nothing matches is returned
  unchanged, yet the pass reports that no analyses are preserved.
\<close>

theorem part000_reports_none_without_rewrite:
  "AlgebraicIdentityPass_part000
     [[BinaryOperator 0 Add (Argument ''x'') (ConstantInt (2 :: 32 word))]]
   = Inr ([[BinaryOperator 0 Add (Argument ''x'') (ConstantInt 2)]], PA_none)"
  by (simp add: AlgebraicIdentityPass_part000_def report_none_def run_scan_def
      algebraic_rule_part000_def)

text \<open>
  C5, amended.  On a well-formed function the strength-reduction and multi-instruction
  passes of TestPass.cpp report \<open>none\<close> exactly when the function they return differs
  from the one they were given, and \<open>all\<close> exactly when it is the same; in particular
  they return the function unchanged and report \<open>all\<close> when no instruction matches.  The
  algebraic-identity pass of TestPass.cpp, whenever it returns, returns the function
  unchanged and reports \<open>all\<close>, and it does return when no instruction matches.  The
  three passes of part\_000 report \<open>none\<close> on every run.
\<close>

theorem changed_flag:
  assumes "well_formed F"
  shows "(\<exists>F' pa. StrengthReductionPass_TestPass F = Inr (F', pa)
            \<and> (pa = PA_none \<longleftrightarrow> F' \<noteq> F) \<and> (pa = PA_all \<longleftrightarrow> F' = F))
       \<and> (\<exists>F' pa. MultiInstructionOptPass F = Inr (F', pa)
            \<and> (pa = PA_none \<longleftrightarrow> F' \<noteq> F) \<and> (pa = PA_all \<longleftrightarrow> F' = F))
       \<and> ((\<forall>J\<in>set (concat F). strength_rule_TestPass 0 [] J = None)
            \<longrightarrow> StrengthReductionPass_TestPass F = Inr (F, PA_all))
       \<and> ((\<forall>J\<in>set (concat F). multi_rule_TestPass (next_id (concat F)) (concat F) J = None)
            \<longrightarrow> MultiInstructionOptPass F = Inr (F, PA_all))
       \<and> (\<forall>F' pa. AlgebraicIdentityPass_TestPass F = Inr (F', pa) \<longrightarrow> F' = F \<and> pa = PA_all)
       \<and> ((\<forall>J\<in>set (concat F). identity_TestPass J = None)
            \<longrightarrow> AlgebraicIdentityPass_TestPass F = Inr (F, PA_all))
       \<and> (\<exists>F'. AlgebraicIdentityPass_part000 F = Inr (F', PA_none))
       \<and> (\<exists>F'. StrengthReductionPass_part000 F = Inr (F', PA_none))
       \<and> snd (MultiInstructionOptimizationPass F) = PA_none"
proof -
  note StrengthReductionPass_TestPass_changed [OF assms]
  moreover note MultiInstructionOptPass_changed [OF assms]
  moreover have "(\<forall>J\<in>set (concat F). strength_rule_TestPass 0 [] J = None)
            \<longrightarrow> StrengthReductionPass_TestPass F = Inr (F, PA_all)"
    using StrengthReductionPass_TestPass_no_match by blast
  moreover have "(\<forall>J\<in>set (concat F). multi_rule_TestPass (next_id (concat F)) (concat F) J = None)
            \<longrightarrow> MultiInstructionOptPass F = Inr (F, PA_all)"
    using MultiInstructionOptPass_no_match by blast
  moreover have "\<forall>F' pa. AlgebraicIdentityPass_TestPass F = Inr (F', pa) \<longrightarrow> F' = F \<and> pa = PA_all"
    by (simp add: AlgebraicIdentityPass_TestPass_Inr)
  moreover have "(\<forall>J\<in>set (concat F). identity_TestPass J = None)
            \<longrightarrow> AlgebraicIdentityPass_TestPass F = Inr (F, PA_all)"
    by (simp add: AlgebraicIdentityPass_TestPass_Inr)
  moreover have "\<exists>F'. AlgebraicIdentityPass_part000 F = Inr (F', PA_none)"
    using AlgebraicIdentityPass_part000_twice [OF assms] by blast
  moreover have "\<exists>F'. StrengthReductionPass_part000 F = Inr (F', PA_none)"
    using StrengthReductionPass_part000_twice [OF assms] by blast
  moreover have "snd (MultiInstructionOptimizationPass F) = PA_none"
    by (simp add: MultiInstructionOptimizationPass_def)
  ultimately show ?thesis by blast
qed

theorem changed_flag_witness:
  "well_formed
     [[BinaryOperator 0 Mul (Argument ''x'') (ConstantInt (15 :: 32 word)),
       BinaryOperator 1 Add (InstRef 0) (ConstantInt 1),
       BinaryOperator 2 Sub (InstRef 1) (ConstantInt 1),
       OtherInst 3 [InstRef 2]]]
   \<and> StrengthReductionPass_TestPass
       [[BinaryOperator 0 Mul (Argument ''x'') (ConstantInt (15 :: 32 word)),
         BinaryOperator 1 Add (InstRef 0) (ConstantInt 1),
         BinaryOperator 2 Sub (InstRef 1) (ConstantInt 1),
         OtherInst 3 [InstRef 2]]]
     = Inr ([[BinaryOperator 4 Shl (Argument ''x'') (ConstantInt 4),
              BinaryOperator 5 Sub (InstRef 4) (Argument ''x''),
              BinaryOperator 1 Add (InstRef 5) (ConstantInt 1),
              BinaryOperator 2 Sub (InstRef 1) (ConstantInt 1),
              OtherInst 3 [InstRef 2]]], PA_none)
   \<and> (\<exists>F' pa. MultiInstructionOptPass
       [[BinaryOperator 0 Mul (Argument ''x'') (ConstantInt (15 :: 32 word)),
         BinaryOperator 1 Add (InstRef 0) (ConstantInt 1),
         BinaryOperator 2 Sub (InstRef 1) (ConstantInt 1),
         OtherInst 3 [InstRef 2]]] = Inr (F', pa)
       \<and> (pa = PA_none) = (F' \<noteq>
       [[BinaryOperator 0 Mul (Argument ''x'') (ConstantInt (15 :: 32 word)),
         BinaryOperator 1 Add (InstRef 0) (ConstantInt 1),
         BinaryOperator 2 Sub (InstRef 1) (ConstantInt 1),
         OtherInst 3 [InstRef 2]]]))"
proof -
  have w: "well_formed
     [[BinaryOperator 0 Mul (Argument ''x'') (ConstantInt (15 :: 32 word)),
       BinaryOperator 1 Add (InstRef 0) (ConstantInt 1),
       BinaryOperator 2 Sub (InstRef 1) (ConstantInt 1),
       OtherInst 3 [InstRef 2]]]"
    by (simp add: well_formed_def refs_def)
  have e: "StrengthReductionPass_TestPass
       [[BinaryOperator 0 Mul (Argument ''x'') (ConstantInt (15 :: 32 word)),
         BinaryOperator 1 Add (InstRef 0) (ConstantInt 1),
         BinaryOperator 2 Sub (InstRef 1) (ConstantInt 1),
         OtherInst 3 [InstRef 2]]]
     = Inr ([[BinaryOperator 4 Shl (Argument ''x'') (ConstantInt 4),
              BinaryOperator 5 Sub (InstRef 4) (Argument ''x''),
              BinaryOperator 1 Add (InstRef 5) (ConstantInt 1),
              BinaryOperator 2 Sub (InstRef 1) (ConstantInt 1),
              OtherInst 3 [InstRef 2]]], PA_none)"
    by (simp add: StrengthReductionPass_TestPass_def report_changed_def run_scan_def
        next_id_def replaceAllUsesWith_def use_empty_def subst_val_def)
  from changed_flag [OF w] w e show ?thesis by blast
qed







text \<open>
  C2 as stated fails for TestPass.cpp: \<open>add 0, x\<close> is not matched by its
  algebraic-identity pass, which returns the function unchanged.
\<close>

theorem algebraic_TestPass_keeps_zero_plus_x:
  "AlgebraicIdentityPass_TestPass
     [[BinaryOperator 0 Add (ConstantInt (0 :: 32 word)) (Argument ''x''),
       OtherInst 1 [InstRef 0]]]
   = Inr ([[BinaryOperator 0 Add (ConstantInt 0) (Argument ''x''),
            OtherInst 1 [InstRef 0]]], PA_all)"
  by (simp add: AlgebraicIdentityPass_TestPass_def)

text \<open>
  C2, amended.  In part\_000, for every instruction \<open>Add(x, 0)\<close>, \<open>Add(0, x)\<close>,
  \<open>Mul(x, 1)\<close> or \<open>Mul(1, x)\<close> of a well-formed function, one run of the
  algebraic-identity pass returns a function that neither contains the instruction nor
  refers to it; when the scan reaches such an instruction it goes on, at the
  instruction that follows, in the function in which every use of the result has been
  replaced with \<open>x\<close> and the instruction is gone.  The matcher of TestPass.cpp takes
  \<open>Add(x, 0)\<close> and \<open>Mul(x, 1)\<close> and replaces with \<open>x\<close>, but does not match \<open>Add(0, x)\<close> or
  \<open>Mul(1, x)\<close> (\<open>x\<close> not itself that constant); a function in which it matches nothing is
  returned unchanged.
\<close>

theorem algebraic_identity_rewrite:
  assumes "well_formed F" and "I \<in> set (concat F)"
    and "I = BinaryOperator i Add x (ConstantInt 0) \<or> I = BinaryOperator i Add (ConstantInt 0) x
       \<or> I = BinaryOperator i Mul x (ConstantInt 1) \<or> I = BinaryOperator i Mul (ConstantInt 1) x"
  shows "(\<exists>F' pa. AlgebraicIdentityPass_part000 F = Inr (F', pa) \<and> well_formed F'
            \<and> i \<notin> ids (concat F') \<and> use_empty i (concat F'))
       \<and> identity_part000 I = Some x
       \<and> (\<forall>n ds pre rest ts ch.
            use_empty i (replaceAllUsesWith i x (concat ds @ pre @ I # rest @ concat ts)) \<longrightarrow>
            scan algebraic_rule_part000 n ds pre (I # rest) ts ch
              = scan algebraic_rule_part000 n
                  (map (replaceAllUsesWith i x) ds) (replaceAllUsesWith i x pre)
                  (replaceAllUsesWith i x rest) (map (replaceAllUsesWith i x) ts) True)
       \<and> identity_TestPass (BinaryOperator i Add x (ConstantInt 0)) = Some x
       \<and> identity_TestPass (BinaryOperator i Mul x (ConstantInt 1)) = Some x
       \<and> (x \<noteq> ConstantInt 0 \<longrightarrow> identity_TestPass (BinaryOperator i Add (ConstantInt 0) x) = None)
       \<and> (x \<noteq> ConstantInt 1 \<longrightarrow> identity_TestPass (BinaryOperator i Mul (ConstantInt 1) x) = None)
       \<and> ((\<forall>J\<in>set (concat F). identity_TestPass J = None)
            \<longrightarrow> AlgebraicIdentityPass_TestPass F = Inr (F, PA_all))"
proof -
  from assms(3) have m: "identity_part000 I = Some x" and id: "ident I = i" by auto
  from AlgebraicIdentityPass_part000_erases [OF assms(1,2)] m id
  have a: "\<exists>F' pa. AlgebraicIdentityPass_part000 F = Inr (F', pa) \<and> well_formed F'
            \<and> i \<notin> ids (concat F') \<and> use_empty i (concat F')" by simp
  have r: "algebraic_rule_part000 n L I = Some ([], x)" for n L
    using m by (simp add: algebraic_rule_part000_def)
  have s: "\<forall>n ds pre rest ts ch.
            use_empty i (replaceAllUsesWith i x (concat ds @ pre @ I # rest @ concat ts)) \<longrightarrow>
            scan algebraic_rule_part000 n ds pre (I # rest) ts ch
              = scan algebraic_rule_part000 n
                  (map (replaceAllUsesWith i x) ds) (replaceAllUsesWith i x pre)
                  (replaceAllUsesWith i x rest) (map (replaceAllUsesWith i x) ts) True"
  proof (intro allI impI)
    fix n ds pre rest ts ch
    assume "use_empty i (replaceAllUsesWith i x (concat ds @ pre @ I # rest @ concat ts))"
    with scan_step [of algebraic_rule_part000 n ds pre I rest ts "[]" x ch] r id
    show "scan algebraic_rule_part000 n ds pre (I # rest) ts ch
              = scan algebraic_rule_part000 n
                  (map (replaceAllUsesWith i x) ds) (replaceAllUsesWith i x pre)
                  (replaceAllUsesWith i x rest) (map (replaceAllUsesWith i x) ts) True"
      by simp
  qed
  have "(\<forall>J\<in>set (concat F). identity_TestPass J = None)
            \<longrightarrow> AlgebraicIdentityPass_TestPass F = Inr (F, PA_all)"
    by (simp add: AlgebraicIdentityPass_TestPass_Inr)
  with a m s show ?thesis by simp
qed

theorem algebraic_identity_rewrite_witness:
  "well_formed
     [[BinaryOperator 0 Add (ConstantInt (0 :: 32 word)) (Argument ''x''),
       OtherInst 1 [InstRef 0]]]
   \<and> (\<exists>F' pa. AlgebraicIdentityPass_part000
         [[BinaryOperator 0 Add (ConstantInt (0 :: 32 word)) (Argument ''x''),
           OtherInst 1 [InstRef 0]]] = Inr (F', pa)
         \<and> well_formed F' \<and> 0 \<notin> ids (concat F') \<and> use_empty 0 (concat F'))
   \<and> AlgebraicIdentityPass_part000
         [[BinaryOperator 0 Add (ConstantInt (0 :: 32 word)) (Argument ''x''),
           OtherInst 1 [InstRef 0]]] = Inr ([[OtherInst 1 [Argument ''x'']]], PA_none)"
proof -
  have w: "well_formed
     [[BinaryOperator 0 Add (ConstantInt (0 :: 32 word)) (Argument ''x''),
       OtherInst 1 [InstRef 0]]]"
    by (simp add: well_formed_def refs_def)
  have e: "AlgebraicIdentityPass_part000
         [[BinaryOperator 0 Add (ConstantInt (0 :: 32 word)) (Argument ''x''),
           OtherInst 1 [InstRef 0]]] = Inr ([[OtherInst 1 [Argument ''x'']]], PA_none)"
    by (simp add: AlgebraicIdentityPass_part000_def report_none_def run_scan_def
        algebraic_rule_part000_def next_id_def replaceAllUsesWith_def use_empty_def
        subst_val_def)
  have "\<exists>F' pa. AlgebraicIdentityPass_part000
         [[BinaryOperator 0 Add (ConstantInt (0 :: 32 word)) (Argument ''x''),
           OtherInst 1 [InstRef 0]]] = Inr (F', pa)
         \<and> well_formed F' \<and> 0 \<notin> ids (concat F') \<and> use_empty 0 (concat F')"
    using algebraic_identity_rewrite [OF w, of
        "BinaryOperator 0 Add (ConstantInt 0) (Argument ''x'')" 0 "Argument ''x''"]
    by simp
  with w e show ?thesis by blast
qed




text \<open>
  C4 as stated fails for part\_000: \<open>udiv x, 8\<close> is not matched by its
  strength-reduction pass, which returns the function with the division in place.
\<close>

theorem strength_part000_keeps_udiv:
  "StrengthReductionPass_part000
     [[BinaryOperator 0 UDiv (Argument ''x'') (ConstantInt (8 :: 32 word)),
       OtherInst 1 [InstRef 0]]]
   = Inr ([[BinaryOperator 0 UDiv (Argument ''x'') (ConstantInt 8),
            OtherInst 1 [InstRef 0]]], PA_none)"
  by (simp add: StrengthReductionPass_part000_def report_none_def run_scan_def)

text \<open>
  C4, amended.  In TestPass.cpp, for every instruction \<open>SDiv(x, 8)\<close> or \<open>UDiv(x, 8)\<close> of a
  well-formed function, one run of the strength-reduction pass returns a function that
  neither contains the instruction nor refers to it; when the scan reaches the
  instruction and \<open>x\<close> is not a constant, the logical shift \<open>LShr(x, 3)\<close> is put right
  before it, every use of it is replaced with the shift and it is erased (a constant
  \<open>x\<close> is folded into the constant \<open>x >> 3\<close>).  part\_000 does this for \<open>SDiv(x, 8)\<close> only,
  with the arithmetic shift \<open>AShr(x, 3)\<close>; it does not match \<open>UDiv(x, 8)\<close>.  For every \<open>y\<close>
  the unsigned quotient by 8 is \<open>y >> 3\<close> (logical), and for every \<open>y\<close> that is not
  negative as a signed integer the signed quotient by 8 is defined and equals both
  the arithmetic and the logical shift by 3.
\<close>

theorem div8_strength_reduction:
  assumes "well_formed F" and "I \<in> set (concat F)" and "unat c = 8"
    and "I = BinaryOperator i SDiv x (ConstantInt c) \<or> I = BinaryOperator i UDiv x (ConstantInt c)"
  shows "(\<exists>F' pa. StrengthReductionPass_TestPass F = Inr (F', pa) \<and> well_formed F'
            \<and> i \<notin> ids (concat F') \<and> use_empty i (concat F'))
       \<and> (\<not> isConstantInt x \<longrightarrow>
            strength_rule_TestPass n L I
              = Some ([BinaryOperator n LShr x (ConstantInt 3)], InstRef n))
       \<and> (\<forall>k. x = ConstantInt k \<longrightarrow>
            strength_rule_TestPass n L I = Some ([], ConstantInt (drop_bit 3 k)))
       \<and> (\<not> isConstantInt x \<longrightarrow> (\<forall>ds pre rest ts ch.
            use_empty i (replaceAllUsesWith i (InstRef n)
              (concat ds @ pre @ [BinaryOperator n LShr x (ConstantInt 3)] @ I # rest @ concat ts)) \<longrightarrow>
            scan strength_rule_TestPass n ds pre (I # rest) ts ch
              = scan strength_rule_TestPass (n + 1)
                  (map (replaceAllUsesWith i (InstRef n)) ds)
                  (replaceAllUsesWith i (InstRef n)
                     (pre @ [BinaryOperator n LShr x (ConstantInt 3)]))
                  (replaceAllUsesWith i (InstRef n) rest)
                  (map (replaceAllUsesWith i (InstRef n)) ts) True))
       \<and> (I = BinaryOperator i SDiv x (ConstantInt c) \<longrightarrow>
            (\<exists>F' pa. StrengthReductionPass_part000 F = Inr (F', pa) \<and> well_formed F'
               \<and> i \<notin> ids (concat F') \<and> use_empty i (concat F')))
       \<and> strength_rule_part000 n L (BinaryOperator i SDiv x (ConstantInt c))
            = Some ([BinaryOperator n AShr x (ConstantInt 3)], InstRef n)
       \<and> (\<forall>ds pre rest ts ch.
            use_empty i (replaceAllUsesWith i (InstRef n)
              (concat ds @ pre @ [BinaryOperator n AShr x (ConstantInt 3)]
                 @ BinaryOperator i SDiv x (ConstantInt c) # rest @ concat ts)) \<longrightarrow>
            scan strength_rule_part000 n ds pre (BinaryOperator i SDiv x (ConstantInt c) # rest) ts ch
              = scan strength_rule_part000 (n + 1)
                  (map (replaceAllUsesWith i (InstRef n)) ds)
                  (replaceAllUsesWith i (InstRef n)
                     (pre @ [BinaryOperator n AShr x (ConstantInt 3)]))
                  (replaceAllUsesWith i (InstRef n) rest)
                  (map (replaceAllUsesWith i (InstRef n)) ts) True)
       \<and> strength_rule_part000 n L (BinaryOperator i UDiv x (ConstantInt c)) = None
       \<and> (\<forall>y. eval_binop UDiv y c = Some (y div c) \<and> eval_binop LShr y 3 = Some (y div c))
       \<and> (\<forall>y. 0 \<le> sint y \<longrightarrow>
            eval_binop SDiv y c = Some (word_sdiv y c)
            \<and> eval_binop AShr y 3 = Some (word_sdiv y c)
            \<and> eval_binop LShr y 3 = Some (word_sdiv y c))"
proof -
  have id: "ident I = i" using assms(4) by auto
  note u3 = unat_three [OF assms(3)]
  have red: "reducible_TestPass I" using assms(3,4) by (auto simp: reducible_TestPass_def)
  from StrengthReductionPass_TestPass_erases [OF assms(1,2) red] id
  have a: "\<exists>F' pa. StrengthReductionPass_TestPass F = Inr (F', pa) \<and> well_formed F'
            \<and> i \<notin> ids (concat F') \<and> use_empty i (concat F')" by simp
  have r: "\<not> isConstantInt x \<Longrightarrow> strength_rule_TestPass n L I
              = Some ([BinaryOperator n LShr x (ConstantInt 3)], InstRef n)" for n L
    using assms(3,4) by (auto simp: IRBuilder_Create_not_constant)
  have f: "\<forall>k. x = ConstantInt k \<longrightarrow>
            strength_rule_TestPass n L I = Some ([], ConstantInt (drop_bit 3 k))"
    using assms(3,4) u3 by auto
  have s: "\<not> isConstantInt x \<longrightarrow> (\<forall>ds pre rest ts ch.
            use_empty i (replaceAllUsesWith i (InstRef n)
              (concat ds @ pre @ [BinaryOperator n LShr x (ConstantInt 3)] @ I # rest @ concat ts)) \<longrightarrow>
            scan strength_rule_TestPass n ds pre (I # rest) ts ch
              = scan strength_rule_TestPass (n + 1)
                  (map (replaceAllUsesWith i (InstRef n)) ds)
                  (replaceAllUsesWith i (InstRef n)
                     (pre @ [BinaryOperator n LShr x (ConstantInt 3)]))
                  (replaceAllUsesWith i (InstRef n) rest)
                  (map (replaceAllUsesWith i (InstRef n)) ts) True)"
  proof (intro allI impI)
    fix ds pre rest ts ch
    assume x: "\<not> isConstantInt x"
      and u: "use_empty i (replaceAllUsesWith i (InstRef n)
              (concat ds @ pre @ [BinaryOperator n LShr x (ConstantInt 3)] @ I # rest @ concat ts))"
    from scan_step [of strength_rule_TestPass n ds pre I rest ts
        "[BinaryOperator n LShr x (ConstantInt 3)]" "InstRef n" ch, OF r [OF x]] u id
    show "scan strength_rule_TestPass n ds pre (I # rest) ts ch
              = scan strength_rule_TestPass (n + 1)
                  (map (replaceAllUsesWith i (InstRef n)) ds)
                  (replaceAllUsesWith i (InstRef n)
                     (pre @ [BinaryOperator n LShr x (ConstantInt 3)]))
                  (replaceAllUsesWith i (InstRef n) rest)
                  (map (replaceAllUsesWith i (InstRef n)) ts) True"
      by simp
  qed
  have t: "I = BinaryOperator i SDiv x (ConstantInt c) \<longrightarrow>
            (\<exists>F' pa. StrengthReductionPass_part000 F = Inr (F', pa) \<and> well_formed F'
               \<and> i \<notin> ids (concat F') \<and> use_empty i (concat F'))"
  proof
    assume I: "I = BinaryOperator i SDiv x (ConstantInt c)"
    with assms(3) have "reducible_part000 I" by (simp add: reducible_part000_def)
    from StrengthReductionPass_part000_erases [OF assms(1,2) this] id
    show "\<exists>F' pa. StrengthReductionPass_part000 F = Inr (F', pa) \<and> well_formed F'
               \<and> i \<notin> ids (concat F') \<and> use_empty i (concat F')" by simp
  qed
  have rb: "strength_rule_part000 n L (BinaryOperator i SDiv x (ConstantInt c))
            = Some ([BinaryOperator n AShr x (ConstantInt 3)], InstRef n)" for n L
    using assms(3) by simp
  have sb: "\<forall>ds pre rest ts ch.
            use_empty i (replaceAllUsesWith i (InstRef n)
              (concat ds @ pre @ [BinaryOperator n AShr x (ConstantInt 3)]
                 @ BinaryOperator i SDiv x (ConstantInt c) # rest @ concat ts)) \<longrightarrow>
            scan strength_rule_part000 n ds pre (BinaryOperator i SDiv x (ConstantInt c) # rest) ts ch
              = scan strength_rule_part000 (n + 1)
                  (map (replaceAllUsesWith i (InstRef n)) ds)
                  (replaceAllUsesWith i (InstRef n)
                     (pre @ [BinaryOperator n AShr x (ConstantInt 3)]))
                  (replaceAllUsesWith i (InstRef n) rest)
                  (map (replaceAllUsesWith i (InstRef n)) ts) True"
  proof (intro allI impI)
    fix ds pre rest ts ch
    assume u: "use_empty i (replaceAllUsesWith i (InstRef n)
              (concat ds @ pre @ [BinaryOperator n AShr x (ConstantInt 3)]
                 @ BinaryOperator i SDiv x (ConstantInt c) # rest @ concat ts))"
    from scan_step [of strength_rule_part000 n ds pre "BinaryOperator i SDiv x (ConstantInt c)"
        rest ts "[BinaryOperator n AShr x (ConstantInt 3)]" "InstRef n" ch, OF rb] u
    show "scan strength_rule_part000 n ds pre (BinaryOperator i SDiv x (ConstantInt c) # rest) ts ch
              = scan strength_rule_part000 (n + 1)
                  (map (replaceAllUsesWith i (InstRef n)) ds)
                  (replaceAllUsesWith i (InstRef n)
                     (pre @ [BinaryOperator n AShr x (ConstantInt 3)]))
                  (replaceAllUsesWith i (InstRef n) rest)
                  (map (replaceAllUsesWith i (InstRef n)) ts) True"
      by simp
  qed
  have nb: "strength_rule_part000 n L (BinaryOperator i UDiv x (ConstantInt c)) = None"
    by simp
  from assms(3) have c0: "c \<noteq> 0" by auto
  have vu: "\<forall>y. eval_binop UDiv y c = Some (y div c) \<and> eval_binop LShr y 3 = Some (y div c)"
    using c0 u3 udiv8_is_shift [OF assms(3)] by simp
  have vs: "\<forall>y. 0 \<le> sint y \<longrightarrow>
            eval_binop SDiv y c = Some (word_sdiv y c)
            \<and> eval_binop AShr y 3 = Some (word_sdiv y c)
            \<and> eval_binop LShr y 3 = Some (word_sdiv y c)"
  proof (intro allI impI)
    fix y :: "'a word" assume y: "0 \<le> sint y"
    from sdiv8_defined [OF assms(3) y] sdiv8_is_shift [OF assms(3) y] ashr_is_lshr [OF y, of 3] u3
    show "eval_binop SDiv y c = Some (word_sdiv y c)
            \<and> eval_binop AShr y 3 = Some (word_sdiv y c)
            \<and> eval_binop LShr y 3 = Some (word_sdiv y c)" by simp
  qed
  from r [of n L] have r': "\<not> isConstantInt x \<longrightarrow> strength_rule_TestPass n L I
              = Some ([BinaryOperator n LShr x (ConstantInt 3)], InstRef n)" by blast
  from a r' f s t rb [of n L] sb nb vu vs show ?thesis by blast
qed

theorem div8_strength_reduction_witness:
  "well_formed
     [[BinaryOperator 0 SDiv (Argument ''x'') (ConstantInt (8 :: 32 word)),
       OtherInst 1 [InstRef 0]]]
   \<and> unat (8 :: 32 word) = 8 \<and> 0 \<le> sint (40 :: 32 word)
   \<and> StrengthReductionPass_TestPass
       [[BinaryOperator 0 SDiv (Argument ''x'') (ConstantInt (8 :: 32 word)),
         OtherInst 1 [InstRef 0]]]
     = Inr ([[BinaryOperator 2 LShr (Argument ''x'') (ConstantInt 3),
              OtherInst 1 [InstRef 2]]], PA_none)
   \<and> (\<exists>F' pa. StrengthReductionPass_part000
         [[BinaryOperator 0 SDiv (Argument ''x'') (ConstantInt (8 :: 32 word)),
           OtherInst 1 [InstRef 0]]] = Inr (F', pa)
         \<and> well_formed F' \<and> 0 \<notin> ids (concat F') \<and> use_empty 0 (concat F'))
   \<and> eval_binop UDiv 40 (8 :: 32 word) = Some 5
   \<and> eval_binop LShr 40 (3 :: 32 word) = Some 5
   \<and> eval_binop SDiv 40 (8 :: 32 word) = Some 5
   \<and> eval_binop AShr 40 (3 :: 32 word) = Some 5"
proof -
  have w: "well_formed
     [[BinaryOperator 0 SDiv (Argument ''x'') (ConstantInt (8 :: 32 word)),
       OtherInst 1 [InstRef 0]]]"
    by (simp add: well_formed_def refs_def)
  have u: "unat (8 :: 32 word) = 8" by simp
  have p: "0 \<le> sint (40 :: 32 word)" by simp
  have e: "StrengthReductionPass_TestPass
       [[BinaryOperator 0 SDiv (Argument ''x'') (ConstantInt (8 :: 32 word)),
         OtherInst 1 [InstRef 0]]]
     = Inr ([[BinaryOperator 2 LShr (Argument ''x'') (ConstantInt 3),
              OtherInst 1 [InstRef 2]]], PA_none)"
    by (simp add: StrengthReductionPass_TestPass_def report_changed_def run_scan_def
        next_id_def replaceAllUsesWith_def use_empty_def subst_val_def)
  have m: "BinaryOperator 0 SDiv (Argument ''x'') (ConstantInt (8 :: 32 word))
      \<in> set (concat [[BinaryOperator 0 SDiv (Argument ''x'') (ConstantInt (8 :: 32 word)),
           OtherInst 1 [InstRef 0]]])" by simp
  have f: "BinaryOperator 0 SDiv (Argument ''x'') (ConstantInt (8 :: 32 word))
        = BinaryOperator 0 SDiv (Argument ''x'') (ConstantInt 8)
      \<or> BinaryOperator 0 SDiv (Argument ''x'') (ConstantInt (8 :: 32 word))
        = BinaryOperator 0 UDiv (Argument ''x'') (ConstantInt 8)" by simp
  note t = div8_strength_reduction [OF w m u f, of 0 "[]"]
  have t': "(\<exists>F' pa. StrengthReductionPass_part000
         [[BinaryOperator 0 SDiv (Argument ''x'') (ConstantInt (8 :: 32 word)),
           OtherInst 1 [InstRef 0]]] = Inr (F', pa)
         \<and> well_formed F' \<and> 0 \<notin> ids (concat F') \<and> use_empty 0 (concat F'))
     \<and> (\<forall>y. eval_binop UDiv y (8 :: 32 word) = Some (y div 8)
            \<and> eval_binop LShr y 3 = Some (y div 8))
     \<and> (\<forall>y. 0 \<le> sint y \<longrightarrow>
            eval_binop SDiv y (8 :: 32 word) = Some (word_sdiv y 8)
            \<and> eval_binop AShr y 3 = Some (word_sdiv y 8)
            \<and> eval_binop LShr y 3 = Some (word_sdiv y 8))"
    using t by blast
  have d: "(40 :: 32 word) div 8 = 5" by simp
  from t' have a: "eval_binop UDiv 40 (8 :: 32 word) = Some (40 div 8)"
    and b: "eval_binop LShr 40 (3 :: 32 word) = Some (40 div 8)" by blast+
  from t' p have c: "eval_binop SDiv 40 (8 :: 32 word) = Some (word_sdiv 40 8)"
    and c': "eval_binop AShr 40 (3 :: 32 word) = Some (word_sdiv 40 8)"
    and c'': "eval_binop LShr 40 (3 :: 32 word) = Some (word_sdiv 40 8)" by blast+
  from b c'' have "word_sdiv 40 (8 :: 32 word) = 40 div 8" by simp
  with a b c c' d have "eval_binop UDiv 40 (8 :: 32 word) = Some 5"
    "eval_binop LShr 40 (3 :: 32 word) = Some 5"
    "eval_binop SDiv 40 (8 :: 32 word) = Some 5"
    "eval_binop AShr 40 (3 :: 32 word) = Some 5" by simp_all
  with w u p e t' show ?thesis by blast
qed

end
